theory Spec2Isabelle
  imports
    Complex_Main
    "HOL-Library.Multiset"
    "HOL-Library.Sublist"
    "HOL-Library.Char_ord"
    "HOL-Library.List_Lexorder"
begin

section \<open>JavaScript containers\<close>

text \<open>
  A JavaScript \<^verbatim>\<open>Set\<close> keeps its elements in insertion order and ignores the
  insertion of an element it already holds. It is modelled as the list of its elements
  in insertion order; \<^verbatim>\<open>s.size\<close> is the length of that list and
  \<^verbatim>\<open>[...s][0]\<close> its first element.
\<close>

definition set_add :: "'a \<Rightarrow> 'a list \<Rightarrow> 'a list" where
  "set_add x s = (if x \<in> set s then s else s @ [x])"

definition new_Set :: "'a list \<Rightarrow> 'a list" where
  "new_Set xs = foldl (\<lambda>s x. set_add x s) [] xs"

section \<open>Evidence Reconciler (accelerated fixer)\<close>

record evidence =
  typeIds :: "int list"
  sectionIds :: "int list"
  nameIds :: "int list"

record decision =
  bcId :: int
  source :: string

text \<open>
  \<^verbatim>\<open>decideMappedId({ typeIds, sectionIds, nameIds })\<close>: the four rules in the order of
  the source; \<^verbatim>\<open>null\<close> is \<open>None\<close>.
\<close>

definition decideMappedId :: "evidence \<Rightarrow> decision option" where
  "decideMappedId e =
     (if length (typeIds e) = 1
      then Some \<lparr>bcId = typeIds e ! 0, source = ''license_type''\<rparr>
      else
        let all = new_Set (typeIds e @ sectionIds e @ nameIds e) in
        if length all = 1
        then Some \<lparr>bcId = all ! 0, source = ''combined_single''\<rparr>
        else if length (sectionIds e) = 1
        then Some \<lparr>bcId = sectionIds e ! 0, source = ''license_section''\<rparr>
        else if length (nameIds e) = 1
        then Some \<lparr>bcId = nameIds e ! 0, source = ''license_name''\<rparr>
        else None)"

section \<open>Strings\<close>

text \<open>
  Decimal rendering of a number inside a template literal, as in
  \<^verbatim>\<open>`unresolved_status_${live.status}`\<close>.
\<close>

definition digit_char :: "nat \<Rightarrow> char" where
  "digit_char d = ''0123456789'' ! d"

function show_nat :: "nat \<Rightarrow> string" where
  "show_nat n = (if n < 10 then [digit_char n] else show_nat (n div 10) @ [digit_char (n mod 10)])"
  by pat_completeness auto
termination
  by (relation "measure id") auto

text \<open>\<^verbatim>\<open>s.replaceAll(pat, rep)\<close> for a non-empty pattern: leftmost matches, left to right.\<close>

function replaceAll :: "string \<Rightarrow> string \<Rightarrow> string \<Rightarrow> string" where
  "replaceAll pat rep [] = []"
| "replaceAll pat rep (c # cs) =
     (if pat \<noteq> [] \<and> prefix pat (c # cs)
      then rep @ replaceAll pat rep (drop (length pat) (c # cs))
      else c # replaceAll pat rep cs)"
  by pat_completeness auto
termination
  by (relation "measure (\<lambda>(pat, rep, s). length s)") (auto simp: neq_Nil_conv)

definition decodeHtmlEntities :: "string \<Rightarrow> string" where
  "decodeHtmlEntities t =
     replaceAll ''&gt;'' ''>''
       (replaceAll ''&lt;'' ''<''
         (replaceAll ''&#39;'' [CHR 39]
           (replaceAll ''&quot;'' [CHR 34]
             (replaceAll ''&amp;'' ''&'' t))))"

definition is_digit :: "char \<Rightarrow> bool" where
  "is_digit c = (c \<in> set ''0123456789'')"

definition lower_ascii :: "char \<Rightarrow> char" where
  "lower_ascii c =
     (case map_of (zip ''ABCDEFGHIJKLMNOPQRSTUVWXYZ'' ''abcdefghijklmnopqrstuvwxyz'') c of
        None \<Rightarrow> c
      | Some l \<Rightarrow> l)"

text \<open>A string option as a JavaScript condition: \<^verbatim>\<open>null\<close> and the empty string are falsy.\<close>

definition truthy :: "string option \<Rightarrow> bool" where
  "truthy s = (case s of None \<Rightarrow> False | Some t \<Rightarrow> t \<noteq> [])"

section \<open>Accelerated fixer: data\<close>

text \<open>
  A listing record of \<^verbatim>\<open>public/urls.json\<close>. The fields \<^verbatim>\<open>tags\<close> and
  \<^verbatim>\<open>favorite\<close> are never read or written by the fixers and are left out.
  \<^verbatim>\<open>null\<close> or an absent field is \<open>None\<close>.
\<close>

record row =
  url_id :: nat
  url :: string
  title :: "string option"
  license :: "int option"
  status :: "string option"
  health_checked_at :: "string option"
  health_reason :: "string option"

text \<open>An entry of \<^verbatim>\<open>src/data/licenses.json\<close>; an entry is valid when \<^verbatim>\<open>bc_id\<close> is an
  integer and \<^verbatim>\<open>name\<close> a string.\<close>

record license_cat =
  l_name :: "string option"
  l_url :: "string option"
  l_bc_id :: "int option"
  l_count :: nat

text \<open>The result of \<^verbatim>\<open>fetchText\<close> / \<^verbatim>\<open>fetchWithRetries\<close>.\<close>

record fetched =
  f_ok :: bool
  f_status :: "nat option"
  f_finalUrl :: "string option"
  f_text :: "string option"
  f_error :: "string option"

text \<open>The options the modelled code reads; the others (concurrency, timeouts, retry
  counts, progress interval) only drive the network layer. \<^verbatim>\<open>domainMinPurity\<close> is the
  double that \<^verbatim>\<open>Number.parseFloat\<close> returns, given by its exact value.\<close>

record options =
  opt_write :: bool
  useArchive :: bool
  useSearchAlias :: bool
  useDomainConsensus :: bool
  domainMinKnown :: nat
  domainMinPurity :: rat

record cc_url =
  cc_slug :: string
  cc_version :: string
  cc_canonical :: string

text \<open>
  The environment of one inspection: what the network answers, and the results of the
  built-in URL parser and of the regular-expression scans, which are taken as given.
  \<^item> \<open>fetchWithRetries u\<close>: the final result of \<^verbatim>\<open>fetchWithRetries(u, ...)\<close>;
  \<^item> \<open>findWaybackSnapshotUrl u\<close>: the snapshot URL the archive reports for \<open>u\<close>;
  \<^item> \<open>hostnameOf\<close>, \<open>slugOfAlbumUrl\<close>, \<open>normalizeCcLicenseUrl\<close>, \<open>encodeURIComponent\<close>:
    the functions of these names, which rest on \<^verbatim>\<open>new URL(...)\<close>;
  \<^item> \<open>matchLicenseType\<close>, \<open>matchLicenseName\<close>, \<open>matchLicenseSectionUrls\<close>,
    \<open>matchAlbumLinks\<close>: the captures of the regular expressions of
    \<^verbatim>\<open>extractLicenseTypeIds\<close>, \<^verbatim>\<open>extractLicenseNameIds\<close>, \<^verbatim>\<open>extractLicenseSectionIds\<close> and
    \<^verbatim>\<open>extractBandcampAlbumLinks\<close>, in the order the loops visit them.
\<close>

record env =
  fetchWithRetries :: "string \<Rightarrow> fetched"
  findWaybackSnapshotUrl :: "string \<Rightarrow> string option"
  hostnameOf :: "string \<Rightarrow> string option"
  slugOfAlbumUrl :: "string \<Rightarrow> string option"
  normalizeCcLicenseUrl :: "string \<Rightarrow> cc_url option"
  encodeURIComponent :: "string \<Rightarrow> string"
  matchLicenseType :: "string \<Rightarrow> int list"
  matchLicenseName :: "string \<Rightarrow> string list"
  matchLicenseSectionUrls :: "string \<Rightarrow> string list"
  matchAlbumLinks :: "string \<Rightarrow> string list"

text \<open>An entry of the consensus table. \<^verbatim>\<open>purity\<close> is a double, given by its exact
  value.\<close>

record consensus =
  total :: nat
  topBcId :: "int option"
  topCount :: nat
  purity :: rat

record mapped =
  m_bc_id :: "int option"
  m_name :: "string option"
  m_source :: string

text \<open>A resolution outcome: one element of \<^verbatim>\<open>results\<close>.\<close>

record outcome =
  o_url_id :: nat
  o_url :: string
  o_title :: "string option"
  o_status :: "nat option"
  o_final_url :: "string option"
  o_archive_status :: "nat option"
  o_archive_url :: "string option"
  o_alias_url :: "string option"
  o_mapped :: "mapped option"
  o_reason :: "string option"

text \<open>The \<^verbatim>\<open>context\<close> argument of \<^verbatim>\<open>inspectRow\<close>. \<^verbatim>\<open>domainConsensus\<close> is a
  \<^verbatim>\<open>Map\<close> whose keys are unique: an association list in insertion order.\<close>

record ctx =
  c_options :: options
  validBcIds :: "int list"
  slugToBcId :: "string \<rightharpoonup> int"
  domainConsensus :: "(string \<times> consensus) list"
  licenseById :: "int \<rightharpoonup> string"

section \<open>Accelerated fixer: evidence extraction\<close>

definition LICENSE_NAME_TO_SLUG :: "string \<rightharpoonup> string" where
  "LICENSE_NAME_TO_SLUG = map_of
     [(''attribution_non_commercial_no_derivatives'', ''by-nc-nd''),
      (''attribution_non_commercial_share_alike'', ''by-nc-sa''),
      (''attribution_non_commercial'', ''by-nc''),
      (''attribution_no_derivatives'', ''by-nd''),
      (''attribution_share_alike'', ''by-sa''),
      (''attribution'', ''by'')]"

definition extractLicenseTypeIds :: "env \<Rightarrow> string \<Rightarrow> int list \<Rightarrow> int list" where
  "extractLicenseTypeIds en html valid =
     foldl (\<lambda>out v. if v \<in> set valid then set_add v out else out) [] (matchLicenseType en html)"

definition extractLicenseNameIds :: "env \<Rightarrow> string \<Rightarrow> (string \<rightharpoonup> int) \<Rightarrow> int list" where
  "extractLicenseNameIds en html slugs =
     foldl (\<lambda>out n.
        case LICENSE_NAME_TO_SLUG n of
          None \<Rightarrow> out
        | Some slug \<Rightarrow> (case slugs slug of None \<Rightarrow> out | Some b \<Rightarrow> set_add b out))
       [] (matchLicenseName en html)"

definition extractLicenseSectionIds :: "env \<Rightarrow> string \<Rightarrow> (string \<rightharpoonup> int) \<Rightarrow> int list" where
  "extractLicenseSectionIds en html slugs =
     foldl (\<lambda>out u.
        case normalizeCcLicenseUrl en u of
          None \<Rightarrow> out
        | Some n \<Rightarrow> (case slugs (cc_slug n) of None \<Rightarrow> out | Some b \<Rightarrow> set_add b out))
       [] (matchLicenseSectionUrls en html)"

text \<open>The three extractions followed by \<^verbatim>\<open>decideMappedId\<close>, as \<^verbatim>\<open>inspectRow\<close> runs them
  on a fetched page under the guard \<^verbatim>\<open>page.ok && page.text\<close>.\<close>

definition decidePage :: "env \<Rightarrow> ctx \<Rightarrow> fetched \<Rightarrow> decision option" where
  "decidePage en ctx page =
     (case f_text page of
        None \<Rightarrow> None
      | Some t \<Rightarrow>
          if f_ok page \<and> t \<noteq> []
          then decideMappedId
                 \<lparr>typeIds = extractLicenseTypeIds en t (validBcIds ctx),
                  sectionIds = extractLicenseSectionIds en t (slugToBcId ctx),
                  nameIds = extractLicenseNameIds en t (slugToBcId ctx)\<rparr>
          else None)"

section \<open>Accelerated fixer: alias discovery\<close>

definition extractBandcampAlbumLinks :: "env \<Rightarrow> string \<Rightarrow> string list" where
  "extractBandcampAlbumLinks en html = new_Set (map decodeHtmlEntities (matchAlbumLinks en html))"

text \<open>\<^verbatim>\<open>host.replace(/\.bandcamp\.com$/i, "")\<close>\<close>

definition hostStem :: "string \<Rightarrow> string" where
  "hostStem host =
     (let n = length host - 13 in
      if 13 \<le> length host \<and> map lower_ascii (drop n host) = ''.bandcamp.com''
      then take n host else host)"

text \<open>\<^verbatim>\<open>slug.replace(/-\d+$/, "")\<close> when \<^verbatim>\<open>/-\d+$/.test(slug)\<close>, and \<open>None\<close> when the
  test fails.\<close>

definition numericSuffixStripped :: "string \<Rightarrow> string option" where
  "numericSuffixStripped slug =
     (let ds = takeWhile is_digit (rev slug); rest = dropWhile is_digit (rev slug) in
      case rest of
        [] \<Rightarrow> None
      | c # pre \<Rightarrow> if ds \<noteq> [] \<and> c = CHR ''-'' then Some (rev pre) else None)"

definition aliasQueries :: "string \<Rightarrow> string \<Rightarrow> string list" where
  "aliasQueries host slug =
     [hostStem host @ '' '' @ slug,
      hostStem host @ '' '' @ replaceAll ''-'' '' '' slug] @
     (case numericSuffixStripped slug of
        None \<Rightarrow> []
      | Some s \<Rightarrow> [hostStem host @ '' '' @ replaceAll ''-'' '' '' s])"

definition searchUrl :: "env \<Rightarrow> string \<Rightarrow> string" where
  "searchUrl en query = ''https://bandcamp.com/search?q='' @ encodeURIComponent en query"

text \<open>
  The loop over the queries of \<^verbatim>\<open>findBandcampAliasAlbumUrl\<close>, with the set
  \<^verbatim>\<open>candidates\<close> as accumulator. \<open>None\<close>: the function returned \<^verbatim>\<open>null\<close> from inside
  the loop (more than one candidate). \<open>Some cs\<close>: the loop ended, by \<^verbatim>\<open>break\<close> or
  because the queries ran out, with candidates \<open>cs\<close>.
\<close>

fun aliasSearch :: "env \<Rightarrow> string \<Rightarrow> string list \<Rightarrow> string list \<Rightarrow> string list option" where
  "aliasSearch en slug [] candidates = Some candidates"
| "aliasSearch en slug (query # queries) candidates =
     (let searched = fetchWithRetries en (searchUrl en query) in
      case f_text searched of
        None \<Rightarrow> aliasSearch en slug queries candidates
      | Some t \<Rightarrow>
          if \<not> f_ok searched \<or> t = [] then aliasSearch en slug queries candidates
          else
            let candidates' =
                  foldl (\<lambda>cs link. if slugOfAlbumUrl en link = Some slug then set_add link cs else cs)
                    candidates (extractBandcampAlbumLinks en t)
            in if length candidates' > 1 then None
               else if length candidates' = 1 then Some candidates'
               else aliasSearch en slug queries candidates')"

definition findBandcampAliasAlbumUrl :: "env \<Rightarrow> string \<Rightarrow> string option" where
  "findBandcampAliasAlbumUrl en originalUrl =
     (if \<not> truthy (hostnameOf en originalUrl) \<or> \<not> truthy (slugOfAlbumUrl en originalUrl)
      then None
      else
        case (hostnameOf en originalUrl, slugOfAlbumUrl en originalUrl) of
          (Some host, Some slug) \<Rightarrow>
            (case aliasSearch en slug (aliasQueries host slug) [] of
               None \<Rightarrow> None
             | Some candidates \<Rightarrow>
                 if length candidates \<noteq> 1 then None
                 else if candidates ! 0 = originalUrl then None
                 else Some (candidates ! 0))
        | _ \<Rightarrow> None)"

text \<open>
  For comparison with the loop, in the words of the specification: the distinct album
  links with the record's item slug that the platform search returns for one query
  (none when the search fails or returns an empty page).
\<close>

definition slugLinks :: "env \<Rightarrow> string \<Rightarrow> string \<Rightarrow> string list" where
  "slugLinks en slug query =
     (let searched = fetchWithRetries en (searchUrl en query) in
      case f_text searched of
        None \<Rightarrow> []
      | Some t \<Rightarrow>
          if \<not> f_ok searched \<or> t = [] then []
          else filter (\<lambda>link. slugOfAlbumUrl en link = Some slug) (extractBandcampAlbumLinks en t))"

section \<open>JavaScript numbers\<close>

text \<open>Rounding to the nearest integer, ties to the even one.\<close>

definition round_half_even :: "rat \<Rightarrow> int" where
  "round_half_even x =
     (let f = \<lfloor>x\<rfloor>; d = x - of_int f in
      if d < 1 / 2 then f
      else if 1 / 2 < d then f + 1
      else if even f then f else f + 1)"

text \<open>For \<open>0 < a < b\<close>, \<open>expUp a b 0\<close> is the \<open>k\<close> with \<open>1 \<le> a / b * 2 ^ k < 2\<close>; for
  \<open>0 < b \<le> a\<close>, \<open>expDown a b 0\<close> is the \<open>j\<close> with \<open>1 \<le> a / b / 2 ^ j < 2\<close>: the binary
  exponent of the quotient.\<close>

function expUp :: "nat \<Rightarrow> nat \<Rightarrow> nat \<Rightarrow> nat" where
  "expUp a b k = (if a = 0 \<or> b \<le> a * 2 ^ k then k else expUp a b (Suc k))"
  by pat_completeness auto
termination
proof (relation "measure (\<lambda>(a, b, k). b - a * 2 ^ k)")
  show "wf (measure (\<lambda>(a, b, k). b - a * 2 ^ k))"
    by simp
next
  fix a b k :: nat
  assume "\<not> (a = 0 \<or> b \<le> a * 2 ^ k)"
  then have "0 < a * 2 ^ k" and "a * 2 ^ k < b"
    by simp_all
  then have "b - 2 * (a * 2 ^ k) < b - a * 2 ^ k"
    by linarith
  then show "((a, b, Suc k), (a, b, k)) \<in> measure (\<lambda>(a, b, k). b - a * 2 ^ k)"
    by (simp add: mult.assoc mult.left_commute)
qed

function expDown :: "nat \<Rightarrow> nat \<Rightarrow> nat \<Rightarrow> nat" where
  "expDown a b j = (if b = 0 \<or> a < b * 2 ^ Suc j then j else expDown a b (Suc j))"
  by pat_completeness auto
termination
proof (relation "measure (\<lambda>(a, b, j). Suc a - b * 2 ^ Suc j)")
  show "wf (measure (\<lambda>(a, b, j). Suc a - b * 2 ^ Suc j))"
    by simp
next
  fix a b j :: nat
  assume "\<not> (b = 0 \<or> a < b * 2 ^ Suc j)"
  then have "0 < b * 2 ^ Suc j" and "b * 2 ^ Suc j \<le> a"
    by simp_all
  then have "Suc a - 2 * (b * 2 ^ Suc j) < Suc a - b * 2 ^ Suc j"
    by linarith
  then show "((a, b, Suc j), (a, b, j)) \<in> measure (\<lambda>(a, b, j). Suc a - b * 2 ^ Suc j)"
    by (simp add: mult.assoc mult.left_commute)
qed

declare expUp.simps [simp del] expDown.simps [simp del]

text \<open>
  \<^verbatim>\<open>a / b\<close> on two Numbers that hold the counts \<open>a\<close> and \<open>b\<close>: the IEEE 754 double
  nearest to the exact quotient, with a significand of 53 bits and ties to even. The
  result is given by its exact value, a rational. The counts are numbers of records of
  the dataset, a JavaScript array with fewer than \<open>2 ^ 32\<close> elements, so both operands
  are exact and the quotient is in the normal range. The source divides only
  under the guard \<^verbatim>\<open>total > 0\<close>; for \<open>b = 0\<close> (\<^verbatim>\<open>Infinity\<close> or \<^verbatim>\<open>NaN\<close> in JavaScript) the
  function is not meant to be used.
\<close>

definition js_div :: "nat \<Rightarrow> nat \<Rightarrow> rat" where
  "js_div a b =
     (if a = 0 \<or> b = 0 then 0
      else if a < b
      then (let k = expUp a b 0 in
            of_int (round_half_even (of_nat a * 2 ^ (k + 52) / of_nat b)) / 2 ^ (k + 52))
      else (let j = expDown a b 0 in
            of_int (round_half_even (of_nat a * 2 ^ 52 / (of_nat b * 2 ^ j))) * 2 ^ j / 2 ^ 52))"

section \<open>Accelerated fixer: domain consensus\<close>

text \<open>\<^verbatim>\<open>Map.prototype.set\<close> on a map kept as an association list in insertion order:
  an existing key keeps its place, a new key goes to the end.\<close>

fun map_set :: "'k \<Rightarrow> 'v \<Rightarrow> ('k \<times> 'v) list \<Rightarrow> ('k \<times> 'v) list" where
  "map_set k v [] = [(k, v)]"
| "map_set k v ((k', v') # m) = (if k' = k then (k, v) # m else (k', v') # map_set k v m)"

text \<open>The first loop of \<^verbatim>\<open>buildDomainConsensus\<close>: per host, the number of rows of each
  license id.\<close>

definition bucketStep ::
  "env \<Rightarrow> (string \<times> (int \<times> nat) list) list \<Rightarrow> row \<Rightarrow> (string \<times> (int \<times> nat) list) list" where
  "bucketStep en bucket r =
     (case license r of
        None \<Rightarrow> bucket
      | Some lic \<Rightarrow>
          if \<not> truthy (hostnameOf en (url r)) then bucket
          else
            case hostnameOf en (url r) of
              None \<Rightarrow> bucket
            | Some host \<Rightarrow>
                let counts = (case map_of bucket host of None \<Rightarrow> [] | Some c \<Rightarrow> c) in
                map_set host
                  (map_set lic ((case map_of counts lic of None \<Rightarrow> 0 | Some n \<Rightarrow> n) + 1) counts)
                  bucket)"

text \<open>The second loop: total, first id with the greatest count, and purity.\<close>

definition summarizeCounts :: "(int \<times> nat) list \<Rightarrow> consensus" where
  "summarizeCounts counts =
     (let (tot, topb, topc) =
            foldl (\<lambda>(tot, topb, topc) (b, n).
                     (tot + n, if n > topc then Some b else topb, if n > topc then n else topc))
              (0, None, 0) counts
      in \<lparr>total = tot, topBcId = topb, topCount = topc,
          purity = (if tot > 0 then js_div topc tot else 0)\<rparr>)"

definition buildDomainConsensus :: "env \<Rightarrow> row list \<Rightarrow> (string \<times> consensus) list" where
  "buildDomainConsensus en urls =
     map (\<lambda>(host, counts). (host, summarizeCounts counts)) (foldl (bucketStep en) [] urls)"

text \<open>
  For comparison with the table, in the words of the specification: the known samples
  of a domain are the records of that host whose license is resolved, and
  \<open>licenseCount\<close> is the number of them that carry a given license id.
\<close>

definition domainRows :: "env \<Rightarrow> row list \<Rightarrow> string \<Rightarrow> row list" where
  "domainRows en urls host =
     filter (\<lambda>r. license r \<noteq> None \<and> hostnameOf en (url r) = Some host) urls"

definition licenseCount :: "env \<Rightarrow> row list \<Rightarrow> string \<Rightarrow> int \<Rightarrow> nat" where
  "licenseCount en urls host b =
     length (filter (\<lambda>r. license r = Some b) (domainRows en urls host))"

section \<open>Accelerated fixer: the fallback chain of \<^verbatim>\<open>inspectRow\<close>\<close>

text \<open>
  Each step of \<^verbatim>\<open>inspectRow\<close> is a function that returns \<open>Some\<close> outcome when the
  source returns from inside that step, and \<open>None\<close> when control falls through to the
  next step. \<open>live\<close> is the result of the live fetch.
\<close>

definition liveStep :: "env \<Rightarrow> ctx \<Rightarrow> row \<Rightarrow> fetched \<Rightarrow> outcome option" where
  "liveStep en cx r live =
     (case decidePage en cx live of
        None \<Rightarrow> None
      | Some d \<Rightarrow>
          Some \<lparr>o_url_id = url_id r, o_url = url r, o_title = title r,
                o_status = f_status live, o_final_url = f_finalUrl live,
                o_archive_status = None, o_archive_url = None, o_alias_url = None,
                o_mapped = Some \<lparr>m_bc_id = Some (bcId d), m_name = licenseById cx (bcId d),
                                  m_source = source d\<rparr>,
                o_reason = None\<rparr>)"

definition archiveStep :: "env \<Rightarrow> ctx \<Rightarrow> row \<Rightarrow> fetched \<Rightarrow> outcome option" where
  "archiveStep en cx r live =
     (if useArchive (c_options cx) \<and> f_status live = Some 404
      then
        case findWaybackSnapshotUrl en (url r) of
          None \<Rightarrow> None
        | Some snapshotUrl \<Rightarrow>
            if snapshotUrl = [] then None
            else
              let archived = fetchWithRetries en snapshotUrl in
              case decidePage en cx archived of
                None \<Rightarrow> None
              | Some d \<Rightarrow>
                  Some \<lparr>o_url_id = url_id r, o_url = url r, o_title = title r,
                        o_status = f_status live, o_final_url = f_finalUrl live,
                        o_archive_status = f_status archived, o_archive_url = Some snapshotUrl,
                        o_alias_url = None,
                        o_mapped = Some \<lparr>m_bc_id = Some (bcId d),
                                          m_name = licenseById cx (bcId d),
                                          m_source = ''wayback_'' @ source d\<rparr>,
                        o_reason = None\<rparr>
      else None)"

definition aliasStep :: "env \<Rightarrow> ctx \<Rightarrow> row \<Rightarrow> fetched \<Rightarrow> outcome option" where
  "aliasStep en cx r live =
     (if useSearchAlias (c_options cx) \<and> f_status live = Some 404
      then
        case findBandcampAliasAlbumUrl en (url r) of
          None \<Rightarrow> None
        | Some aliasUrl \<Rightarrow>
            if aliasUrl = [] then None
            else
              let alias = fetchWithRetries en aliasUrl in
              case decidePage en cx alias of
                None \<Rightarrow> None
              | Some d \<Rightarrow>
                  Some \<lparr>o_url_id = url_id r, o_url = url r, o_title = title r,
                        o_status = f_status live, o_final_url = f_finalUrl live,
                        o_archive_status = None, o_archive_url = None,
                        o_alias_url = Some aliasUrl,
                        o_mapped = Some \<lparr>m_bc_id = Some (bcId d),
                                          m_name = licenseById cx (bcId d),
                                          m_source = ''search_alias_'' @ source d\<rparr>,
                        o_reason = None\<rparr>
      else None)"

definition consensusStep :: "env \<Rightarrow> ctx \<Rightarrow> row \<Rightarrow> fetched \<Rightarrow> outcome option" where
  "consensusStep en cx r live =
     (if useDomainConsensus (c_options cx)
      then
        case (if truthy (hostnameOf en (url r))
              then (case hostnameOf en (url r) of
                      None \<Rightarrow> None
                    | Some host \<Rightarrow> map_of (domainConsensus cx) host)
              else None) of
          None \<Rightarrow> None
        | Some c \<Rightarrow>
            if total c \<ge> domainMinKnown (c_options cx) \<and>
               purity c \<ge> domainMinPurity (c_options cx) \<and>
               topBcId c \<noteq> None
            then
              (case topBcId c of
                 None \<Rightarrow> None
               | Some topId \<Rightarrow>
                   Some \<lparr>o_url_id = url_id r, o_url = url r, o_title = title r,
                         o_status = f_status live, o_final_url = f_finalUrl live,
                         o_archive_status = None, o_archive_url = None, o_alias_url = None,
                         o_mapped = Some \<lparr>m_bc_id = Some topId, m_name = licenseById cx topId,
                                           m_source = ''domain_consensus''\<rparr>,
                         o_reason = None\<rparr>)
            else None
      else None)"

definition unresolvedOutcome :: "row \<Rightarrow> fetched \<Rightarrow> outcome" where
  "unresolvedOutcome r live =
     \<lparr>o_url_id = url_id r, o_url = url r, o_title = title r,
      o_status = f_status live, o_final_url = f_finalUrl live,
      o_archive_status = None, o_archive_url = None, o_alias_url = None,
      o_mapped = None,
      o_reason =
        Some (case f_status live of
                Some st \<Rightarrow>
                  if f_ok live then ''unresolved_status_'' @ show_nat st
                  else ''fetch_error:'' @ (case f_error live of None \<Rightarrow> ''unknown'' | Some e \<Rightarrow> e)
              | None \<Rightarrow>
                  ''fetch_error:'' @ (case f_error live of None \<Rightarrow> ''unknown'' | Some e \<Rightarrow> e))\<rparr>"

definition inspectRow :: "env \<Rightarrow> ctx \<Rightarrow> row \<Rightarrow> outcome" where
  "inspectRow en cx r =
     (let live = fetchWithRetries en (url r) in
      case liveStep en cx r live of
        Some out \<Rightarrow> out
      | None \<Rightarrow>
          (case archiveStep en cx r live of
             Some out \<Rightarrow> out
           | None \<Rightarrow>
               (case aliasStep en cx r live of
                  Some out \<Rightarrow> out
                | None \<Rightarrow>
                    (case consensusStep en cx r live of
                       Some out \<Rightarrow> out
                     | None \<Rightarrow> unresolvedOutcome r live))))"

section \<open>Accelerated fixer: the Dataset Merger of \<^verbatim>\<open>main\<close>\<close>

definition normalizedStatus :: "string option \<Rightarrow> string" where
  "normalizedStatus rawStatus =
     (case rawStatus of
        None \<Rightarrow> ''active''
      | Some s \<Rightarrow> if s = ''active'' \<or> s = ''dead'' \<or> s = ''unverified'' then s else ''active'')"

definition isVisibleActiveRow :: "row \<Rightarrow> int list \<Rightarrow> bool" where
  "isVisibleActiveRow r valid =
     (normalizedStatus (status r) = ''active'' \<and>
      (case license r of None \<Rightarrow> False | Some l \<Rightarrow> l \<in> set valid))"

definition validLicenses :: "license_cat list \<Rightarrow> license_cat list" where
  "validLicenses licenses = filter (\<lambda>l. l_bc_id l \<noteq> None \<and> l_name l \<noteq> None) licenses"

definition validBcIdsOf :: "license_cat list \<Rightarrow> int list" where
  "validBcIdsOf valid =
     new_Set (concat (map (\<lambda>l. case l_bc_id l of None \<Rightarrow> [] | Some b \<Rightarrow> [b]) valid))"

definition slugToBcIdOf :: "license_cat list \<Rightarrow> (string \<rightharpoonup> int)" where
  "slugToBcIdOf valid =
     map_of (rev (concat (map (\<lambda>l. case (l_name l, l_bc_id l) of
                                      (Some n, Some b) \<Rightarrow> [(n, b)] | _ \<Rightarrow> []) valid)))"

definition licenseByIdOf :: "license_cat list \<Rightarrow> (int \<rightharpoonup> string)" where
  "licenseByIdOf valid =
     map_of (rev (concat (map (\<lambda>l. case (l_name l, l_bc_id l) of
                                      (Some n, Some b) \<Rightarrow> [(b, n)] | _ \<Rightarrow> []) valid)))"

text \<open>\<^verbatim>\<open>new Map(results.map((r) => [r.url_id, r]))\<close>: the last outcome of an id wins.\<close>

definition resultById :: "outcome list \<Rightarrow> (nat \<rightharpoonup> outcome)" where
  "resultById results = map_of (rev (map (\<lambda>r. (o_url_id r, r)) results))"

text \<open>The body of the merge loop for a row whose id has an outcome \<open>match\<close>.\<close>

definition mergeRow :: "string \<Rightarrow> outcome \<Rightarrow> row \<Rightarrow> row" where
  "mergeRow runTimestamp match r =
     (let r1 = r\<lparr>health_checked_at := Some runTimestamp\<rparr>;
          r2 = (case o_mapped match of
                  None \<Rightarrow> r1
                | Some mp \<Rightarrow> (case m_bc_id mp of None \<Rightarrow> r1 | Some b \<Rightarrow> r1\<lparr>license := Some b\<rparr>))
      in case o_mapped match of
           Some mp \<Rightarrow>
             let src = (if m_source mp = [] then ''mapped_unknown'' else m_source mp);
                 mappedViaAlias = prefix ''search_alias_'' src;
                 confirmedDead = (o_status match = Some 404 \<and> \<not> mappedViaAlias);
                 r3 = (case o_alias_url match of
                         Some a \<Rightarrow> if mappedViaAlias then r2\<lparr>url := a\<rparr> else r2
                       | None \<Rightarrow> r2)
             in if confirmedDead \<or> prefix ''wayback_'' src
                then r3\<lparr>status := Some ''dead'', health_reason := Some ''http_404''\<rparr>
                else r3\<lparr>status := Some ''active'', health_reason := Some src\<rparr>
         | None \<Rightarrow>
             if o_reason match = Some ''unresolved_status_404''
             then r2\<lparr>status := Some ''dead'', health_reason := Some ''http_404''\<rparr>
             else r2\<lparr>status := Some ''unverified'',
                     health_reason := Some (if truthy (o_reason match)
                                            then (case o_reason match of Some x \<Rightarrow> x | None \<Rightarrow> [])
                                            else ''unresolved'')\<rparr>)"

definition mergeRows :: "string \<Rightarrow> outcome list \<Rightarrow> row list \<Rightarrow> row list" where
  "mergeRows runTimestamp results urls =
     map (\<lambda>r. case resultById results (url_id r) of
                 None \<Rightarrow> r
               | Some match \<Rightarrow> mergeRow runTimestamp match r) urls"

text \<open>\<^verbatim>\<open>countsByBcId\<close> is only read with \<^verbatim>\<open>get\<close>, so its order does not matter: a map.\<close>

definition countsByBcId :: "row list \<Rightarrow> int list \<Rightarrow> (int \<rightharpoonup> nat)" where
  "countsByBcId urls valid =
     foldl (\<lambda>m r. if isVisibleActiveRow r valid
                   then (case license r of
                           None \<Rightarrow> m
                         | Some l \<Rightarrow> m(l \<mapsto> (case m l of None \<Rightarrow> 0 | Some n \<Rightarrow> n) + 1))
                   else m) Map.empty urls"

definition cleanedLicenses :: "(int \<rightharpoonup> nat) \<Rightarrow> license_cat list \<Rightarrow> license_cat list" where
  "cleanedLicenses counts valid =
     map (\<lambda>l. \<lparr>l_name = l_name l, l_url = l_url l, l_bc_id = l_bc_id l,
                l_count = (case l_bc_id l of
                             None \<Rightarrow> 0
                           | Some b \<Rightarrow> (case counts b of None \<Rightarrow> 0 | Some n \<Rightarrow> n))\<rparr>) valid"

text \<open>The merge and the recount of \<^verbatim>\<open>main\<close>, from the two files to what \<^verbatim>\<open>--write\<close>
  stores in them.\<close>

definition acceleratedMerge ::
  "string \<Rightarrow> outcome list \<Rightarrow> row list \<times> license_cat list \<Rightarrow> row list \<times> license_cat list" where
  "acceleratedMerge runTimestamp results files =
     (let urls' = mergeRows runTimestamp results (fst files);
          valid = validLicenses (snd files)
      in (urls', cleanedLicenses (countsByBcId urls' (validBcIdsOf valid)) valid))"

text \<open>The report file, as far as the reconciler reads it.\<close>

record payload =
  generated_at :: "string option"
  results :: "outcome list option"

definition acceleratedResults :: "env \<Rightarrow> options \<Rightarrow> row list \<times> license_cat list \<Rightarrow> outcome list" where
  "acceleratedResults en opts files =
     (let valid = validLicenses (snd files);
          cx = \<lparr>c_options = opts, validBcIds = validBcIdsOf valid,
                slugToBcId = slugToBcIdOf valid,
                domainConsensus = buildDomainConsensus en (fst files),
                licenseById = licenseByIdOf valid\<rparr>;
          missingRows = filter (\<lambda>u. license u = None) (fst files)
      in map (inspectRow en cx) missingRows)"

text \<open>\<^verbatim>\<open>main\<close>: the files after the run, and the report it writes.\<close>

definition acceleratedMain ::
  "env \<Rightarrow> options \<Rightarrow> string \<Rightarrow> row list \<times> license_cat list \<Rightarrow>
   (row list \<times> license_cat list) \<times> payload" where
  "acceleratedMain en opts runTimestamp files =
     (let rs = acceleratedResults en opts files;
          merged = acceleratedMerge runTimestamp rs files
      in (if opt_write opts then merged else files,
          \<lparr>generated_at = Some runTimestamp, results = Some rs\<rparr>))"

section \<open>Report Reconciler\<close>

record report =
  r_generated_at :: string
  r_results :: "outcome list"

definition loadReport :: "payload \<Rightarrow> report" where
  "loadReport p =
     \<lparr>r_generated_at = (if truthy (generated_at p)
                         then (case generated_at p of Some t \<Rightarrow> t | None \<Rightarrow> [])
                         else ''1970-01-01T00:00:00.000Z''),
      r_results = (case results p of None \<Rightarrow> [] | Some rs \<Rightarrow> rs)\<rparr>"

text \<open>\<^verbatim>\<open>new Map(urls.map((row) => [row.url_id, row]))\<close>: the map holds references to the
  rows, so it is the index of the last row of each id.\<close>

definition rowsById :: "row list \<Rightarrow> (nat \<rightharpoonup> nat)" where
  "rowsById urls = map_of (rev (zip (map url_id urls) [0..<length urls]))"

text \<open>The body of the inner loop for a result whose row exists. The counters
  \<^verbatim>\<open>statusUpdates\<close>, \<^verbatim>\<open>aliasUrlRewrites\<close> and \<^verbatim>\<open>licenseUpdates\<close> only feed the printed
  summary and are left out.\<close>

definition reconcileRow :: "string \<Rightarrow> outcome \<Rightarrow> row \<Rightarrow> row" where
  "reconcileRow generatedAt result r =
     (let r1 = r\<lparr>health_checked_at := Some generatedAt\<rparr>;
          r2 = (case o_mapped result of
                  None \<Rightarrow> r1
                | Some mp \<Rightarrow>
                    (case m_bc_id mp of
                       None \<Rightarrow> r1
                     | Some b \<Rightarrow> if license r1 \<noteq> Some b then r1\<lparr>license := Some b\<rparr> else r1))
      in case o_mapped result of
           Some mp \<Rightarrow>
             let src = (if m_source mp = [] then ''mapped_unknown'' else m_source mp);
                 mappedViaAlias = prefix ''search_alias_'' src;
                 confirmedDead = (o_status result = Some 404 \<and> \<not> mappedViaAlias);
                 r3 = (case o_alias_url result of
                         Some a \<Rightarrow> if mappedViaAlias \<and> url r2 \<noteq> a then r2\<lparr>url := a\<rparr> else r2
                       | None \<Rightarrow> r2)
             in if confirmedDead \<or> prefix ''wayback_'' src
                then r3\<lparr>status := Some ''dead'', health_reason := Some ''http_404''\<rparr>
                else r3\<lparr>status := Some ''active'', health_reason := Some src\<rparr>
         | None \<Rightarrow>
             if o_reason result = Some ''unresolved_status_404''
             then r2\<lparr>status := Some ''dead'', health_reason := Some ''http_404''\<rparr>
             else r2\<lparr>status := Some ''unverified'',
                     health_reason := Some (if truthy (o_reason result)
                                            then (case o_reason result of Some x \<Rightarrow> x | None \<Rightarrow> [])
                                            else ''unresolved'')\<rparr>)"

definition reconcileResult :: "(nat \<rightharpoonup> nat) \<Rightarrow> string \<Rightarrow> row list \<Rightarrow> outcome \<Rightarrow> row list" where
  "reconcileResult idx generatedAt urls result =
     (case idx (o_url_id result) of
        None \<Rightarrow> urls
      | Some i \<Rightarrow> if i < length urls then urls[i := reconcileRow generatedAt result (urls ! i)] else urls)"

definition reconcileReport :: "(nat \<rightharpoonup> nat) \<Rightarrow> row list \<Rightarrow> report \<Rightarrow> row list" where
  "reconcileReport idx urls rep = foldl (reconcileResult idx (r_generated_at rep)) urls (r_results rep)"

text \<open>\<^verbatim>\<open>main\<close> of the reconciler: the reports sorted by \<^verbatim>\<open>generated_at\<close> (a stable sort;
  the timestamps are ISO-8601 strings of \<^verbatim>\<open>toISOString\<close>, on which \<^verbatim>\<open>localeCompare\<close> is the
  lexicographic order), then replayed oldest first.\<close>

definition reconcileMain :: "row list \<Rightarrow> payload list \<Rightarrow> row list" where
  "reconcileMain urls payloads =
     foldl (reconcileReport (rowsById urls)) urls (sort_key r_generated_at (map loadReport payloads))"

section \<open>The live history of the accelerated fixer\<close>

text \<open>A run of the accelerated fixer: the network it meets, its options and the
  timestamp \<^verbatim>\<open>runTimestamp\<close> it takes at start.\<close>

record run =
  run_env :: env
  run_options :: options
  run_timestamp :: string

text \<open>Runs one after the other on the files the previous run left: the files after
  the last run, and the reports in the order they were written.\<close>

fun liveRuns ::
  "run list \<Rightarrow> row list \<times> license_cat list \<Rightarrow> (row list \<times> license_cat list) \<times> payload list" where
  "liveRuns [] files = (files, [])"
| "liveRuns (p # passes) files =
     (let (files', rep) = acceleratedMain (run_env p) (run_options p) (run_timestamp p) files;
          (final, reps) = liveRuns passes files'
      in (final, rep # reps))"

section \<open>Exact fixer\<close>

record page =
  p_status :: nat
  p_finalUrl :: string
  p_text :: string

record exact_mapped =
  xm_bc_id :: "int option"
  xm_name :: "string option"
  xm_matched_url :: string

record listing_outcome =
  x_url_id :: nat
  x_url :: string
  x_title :: "string option"
  x_status :: "nat option"
  x_final_url :: "string option"
  x_mapped :: "exact_mapped option"
  x_reason :: "string option"
  x_detected_urls :: "string list"
  x_error :: "string option"

text \<open>The options the modelled code reads; the back-off options only set how long the
  retry loop sleeps.\<close>

record xoptions =
  x_write :: bool
  x_retries :: nat
  x_limit :: "nat option"
  targetVersions :: "string list"
  retryStatuses :: "nat list"

text \<open>
  The environment of the exact fixer: \<open>fetchPage u k\<close> is what the \<open>k\<close>-th call of
  \<^verbatim>\<open>fetchPage(u, ...)\<close> does, \<open>Inl\<close> the message of the error it throws, \<open>Inr\<close> the page;
  \<open>matchCcAnchors\<close> is the captures of the anchor regular expression of
  \<^verbatim>\<open>extractCcLicenseUrls\<close>; \<open>normalizeCcLicenseUrlExact\<close> is this file's
  \<^verbatim>\<open>normalizeCcLicenseUrl\<close>, which rests on \<^verbatim>\<open>new URL(...)\<close>.
\<close>

record xenv =
  fetchPage :: "string \<Rightarrow> nat \<Rightarrow> string + page"
  matchCcAnchors :: "string \<Rightarrow> string list"
  normalizeCcLicenseUrlExact :: "string \<Rightarrow> cc_url option"

definition extractCcLicenseUrls :: "xenv \<Rightarrow> string \<Rightarrow> cc_url list" where
  "extractCcLicenseUrls xe html =
     foldl (\<lambda>urls raw.
        case normalizeCcLicenseUrlExact xe raw of
          None \<Rightarrow> urls
        | Some n \<Rightarrow> if cc_canonical n \<in> set (map cc_canonical urls) then urls else urls @ [n])
       [] (matchCcAnchors xe html)"

definition buildLegitimateTargetMap ::
  "xenv \<Rightarrow> license_cat list \<Rightarrow> string list \<Rightarrow> (string \<rightharpoonup> int option \<times> string option)" where
  "buildLegitimateTargetMap xe valid versions =
     foldl (\<lambda>targetMap l.
        let m1 = (case l_url l of
                    None \<Rightarrow> targetMap
                  | Some u \<Rightarrow>
                      (case normalizeCcLicenseUrlExact xe u of
                         None \<Rightarrow> targetMap
                       | Some nb \<Rightarrow> targetMap(cc_canonical nb \<mapsto> (l_bc_id l, l_name l))))
        in foldl (\<lambda>m version.
                    m(''https://creativecommons.org/licenses/'' @
                        (case l_name l of None \<Rightarrow> [] | Some n \<Rightarrow> n) @ ''/'' @ version @ ''/''
                      \<mapsto> (l_bc_id l, l_name l)))
             m1 versions)
       Map.empty valid"

text \<open>The detected URLs that are legitimate targets, each with its target, and the
  distinct ids among them.\<close>

definition matchedTargets ::
  "(string \<rightharpoonup> int option \<times> string option) \<Rightarrow> cc_url list \<Rightarrow>
   (cc_url \<times> int option \<times> string option) list" where
  "matchedTargets targetMap detected =
     concat (map (\<lambda>d. case targetMap (cc_canonical d) of None \<Rightarrow> [] | Some t \<Rightarrow> [(d, t)]) detected)"

definition uniqueBcIds :: "(cc_url \<times> int option \<times> string option) list \<Rightarrow> int option list" where
  "uniqueBcIds matched = new_Set (map (\<lambda>m. fst (snd m)) matched)"

text \<open>The part of the loop body of \<^verbatim>\<open>inspectListing\<close> that follows a fetch that is not
  retried: the outcome for the page.\<close>

definition classifyPage ::
  "xenv \<Rightarrow> (string \<rightharpoonup> int option \<times> string option) \<Rightarrow> row \<Rightarrow> page \<Rightarrow> listing_outcome" where
  "classifyPage xe targetMap listing pg =
     (let detected = extractCcLicenseUrls xe (p_text pg);
          matched = matchedTargets targetMap detected;
          ids = uniqueBcIds matched
      in if length ids = 1
         then \<lparr>x_url_id = url_id listing, x_url = url listing, x_title = title listing,
               x_status = Some (p_status pg), x_final_url = Some (p_finalUrl pg),
               x_mapped = Some \<lparr>xm_bc_id = ids ! 0,
                                 xm_name = snd (snd (matched ! 0)),
                                 xm_matched_url = cc_canonical (fst (matched ! 0))\<rparr>,
               x_reason = None,
               x_detected_urls = map cc_canonical detected,
               x_error = None\<rparr>
         else \<lparr>x_url_id = url_id listing, x_url = url listing, x_title = title listing,
               x_status = Some (p_status pg), x_final_url = Some (p_finalUrl pg),
               x_mapped = None,
               x_reason =
                 Some (if length detected = 0 \<and> p_status pg \<ge> 400
                       then ''http_status_'' @ show_nat (p_status pg)
                       else if length matched = 0 then ''no_exact_legitimate_match''
                       else ''ambiguous_exact_matches''),
               x_detected_urls = map cc_canonical detected,
               x_error = None\<rparr>)"

text \<open>The retry loop of \<^verbatim>\<open>inspectListing\<close>, from attempt \<open>attempt\<close> on.\<close>

function inspectAttempts ::
  "xenv \<Rightarrow> xoptions \<Rightarrow> (string \<rightharpoonup> int option \<times> string option) \<Rightarrow> row \<Rightarrow>
   nat \<Rightarrow> string option \<Rightarrow> listing_outcome" where
  "inspectAttempts xe opts targetMap listing attempt lastError =
     (if attempt \<le> x_retries opts + 1
      then
        (case fetchPage xe (url listing) attempt of
           Inr pg \<Rightarrow>
             if p_status pg \<in> set (retryStatuses opts) \<and> attempt < x_retries opts + 1
             then inspectAttempts xe opts targetMap listing (attempt + 1) lastError
             else classifyPage xe targetMap listing pg
         | Inl msg \<Rightarrow> inspectAttempts xe opts targetMap listing (attempt + 1) (Some msg))
      else
        \<lparr>x_url_id = url_id listing, x_url = url listing, x_title = title listing,
         x_status = None, x_final_url = None, x_mapped = None,
         x_reason = Some ''fetch_error'', x_detected_urls = [],
         x_error = Some (case lastError of None \<Rightarrow> ''Unknown error'' | Some msg \<Rightarrow> msg)\<rparr>)"
  by pat_completeness auto
termination
  by (relation "measure (\<lambda>(xe, opts, targetMap, listing, attempt, lastError).
                  x_retries opts + 2 - attempt)") auto

definition inspectListing ::
  "xenv \<Rightarrow> xoptions \<Rightarrow> (string \<rightharpoonup> int option \<times> string option) \<Rightarrow> row \<Rightarrow> listing_outcome" where
  "inspectListing xe opts targetMap listing = inspectAttempts xe opts targetMap listing 1 None"

definition resultsById :: "listing_outcome list \<Rightarrow> (nat \<rightharpoonup> listing_outcome)" where
  "resultsById rs = map_of (rev (map (\<lambda>r. (x_url_id r, r)) rs))"

definition exactMergeRows :: "listing_outcome list \<Rightarrow> row list \<Rightarrow> row list" where
  "exactMergeRows rs urls =
     map (\<lambda>r. case resultsById rs (url_id r) of
                 None \<Rightarrow> r
               | Some match \<Rightarrow>
                   (case x_mapped match of
                      None \<Rightarrow> r
                    | Some mp \<Rightarrow> (case xm_bc_id mp of None \<Rightarrow> r | Some b \<Rightarrow> r\<lparr>license := Some b\<rparr>)))
       urls"

text \<open>The recount of the exact fixer: every row whose license is an integer is counted,
  whatever its status.\<close>

definition exactCountsByBcId :: "row list \<Rightarrow> (int \<rightharpoonup> nat)" where
  "exactCountsByBcId urls =
     foldl (\<lambda>m r. case license r of
                     None \<Rightarrow> m
                   | Some l \<Rightarrow> m(l \<mapsto> (case m l of None \<Rightarrow> 0 | Some n \<Rightarrow> n) + 1))
       Map.empty urls"

definition exactMerge ::
  "listing_outcome list \<Rightarrow> row list \<times> license_cat list \<Rightarrow> row list \<times> license_cat list" where
  "exactMerge rs files =
     (let urls' = exactMergeRows rs (fst files)
      in (urls', cleanedLicenses (exactCountsByBcId urls') (validLicenses (snd files))))"

section \<open>Multi-pass orchestrator\<close>

text \<open>What the orchestrator reads from the latest report of the exact fixer:
  \<^verbatim>\<open>report?.dataset?.missing_after ?? null\<close> and \<^verbatim>\<open>report?.summary?.mapped ?? 0\<close>.\<close>

record pass_report =
  missing_after :: "nat option"
  summary_mapped :: "nat option"

record orch_options =
  maxPasses :: nat
  stopAfterNoProgressPasses :: nat

datatype stop = AllResolved | Stalled | PassCap

definition mappedOf :: "pass_report \<Rightarrow> nat" where
  "mappedOf rep = (case summary_mapped rep of None \<Rightarrow> 0 | Some m \<Rightarrow> m)"

text \<open>
  The \<^verbatim>\<open>while (true)\<close> loop of \<^verbatim>\<open>main\<close>. \<open>reports k\<close> is the report read after pass
  \<open>k\<close>. The loop need not end: the result is \<open>None\<close> when it runs forever, and otherwise
  the number of the last pass, the value of \<^verbatim>\<open>consecutiveNoProgress\<close> there and which
  \<^verbatim>\<open>break\<close> was taken.
\<close>

partial_function (option) passLoop ::
  "orch_options \<Rightarrow> (nat \<Rightarrow> pass_report) \<Rightarrow> nat \<Rightarrow> nat \<Rightarrow> (nat \<times> nat \<times> stop) option" where
  "passLoop opts reports pass consecutiveNoProgress =
     (let pass' = pass + 1;
          rep = reports pass';
          mapped = mappedOf rep;
          noProgress' = (if mapped = 0 then consecutiveNoProgress + 1 else 0)
      in if missing_after rep = Some 0 then Some (pass', noProgress', AllResolved)
         else if stopAfterNoProgressPasses opts > 0 \<and>
                 noProgress' \<ge> stopAfterNoProgressPasses opts
         then Some (pass', noProgress', Stalled)
         else if maxPasses opts > 0 \<and> pass' \<ge> maxPasses opts
         then Some (pass', noProgress', PassCap)
         else passLoop opts reports pass' noProgress')"

definition orchestrate :: "orch_options \<Rightarrow> (nat \<Rightarrow> pass_report) \<Rightarrow> (nat \<times> nat \<times> stop) option" where
  "orchestrate opts reports = passLoop opts reports 0 0"

text \<open>
  The stopping conditions in the words of the specification, to compare the loop with.
  \<open>stalledAt N reports n\<close>: \<^verbatim>\<open>mapped\<close> was zero in each of the \<open>N\<close> consecutive passes
  that end with pass \<open>n\<close>. \<open>doneAfter opts reports n\<close>: after pass \<open>n\<close> nothing is
  missing, or the run has stalled for the configured threshold, or the configured pass
  cap is reached. \<open>noProgressCount reports n\<close>: the number of consecutive passes with
  \<^verbatim>\<open>mapped = 0\<close> that end with pass \<open>n\<close>. \<open>stopReason\<close>: the first of the three
  conditions that holds.
\<close>

definition stalledAt :: "nat \<Rightarrow> (nat \<Rightarrow> pass_report) \<Rightarrow> nat \<Rightarrow> bool" where
  "stalledAt N reports n =
     (0 < N \<and> N \<le> n \<and> list_all (\<lambda>k. mappedOf (reports k) = 0) [Suc n - N ..< Suc n])"

definition doneAfter :: "orch_options \<Rightarrow> (nat \<Rightarrow> pass_report) \<Rightarrow> nat \<Rightarrow> bool" where
  "doneAfter opts reports n =
     (missing_after (reports n) = Some 0 \<or>
      stalledAt (stopAfterNoProgressPasses opts) reports n \<or>
      (0 < maxPasses opts \<and> maxPasses opts \<le> n))"

definition noProgressCount :: "(nat \<Rightarrow> pass_report) \<Rightarrow> nat \<Rightarrow> nat" where
  "noProgressCount reports n =
     length (takeWhile (\<lambda>k. mappedOf (reports k) = 0) (rev [1 ..< Suc n]))"

definition stopReason :: "orch_options \<Rightarrow> (nat \<Rightarrow> pass_report) \<Rightarrow> nat \<Rightarrow> stop" where
  "stopReason opts reports n =
     (if missing_after (reports n) = Some 0 then AllResolved
      else if stalledAt (stopAfterNoProgressPasses opts) reports n then Stalled
      else PassCap)"

section \<open>Example inputs\<close>

text \<open>Concrete inputs on which the theorems below are evaluated.\<close>

definition page_ok :: "nat \<Rightarrow> string \<Rightarrow> fetched" where
  "page_ok st t =
     \<lparr>f_ok = True, f_status = Some st, f_finalUrl = None, f_text = Some t, f_error = None\<rparr>"

text \<open>A network where \<^verbatim>\<open>gone\<close> answers 404 and has a snapshot \<^verbatim>\<open>snap\<close> whose page
  carries the type marker 4, \<^verbatim>\<open>amb\<close> answers 200 with the two type markers 3 and 5, and
  every other URL answers 200 with a page without any marker.\<close>

definition demo_env :: env where
  "demo_env =
     \<lparr>fetchWithRetries =
        (\<lambda>u. if u = ''gone'' then page_ok 404 ''not found''
              else if u = ''snap'' then page_ok 200 ''type4''
              else if u = ''amb'' then page_ok 200 ''type3 type5''
              else page_ok 200 ''plain''),
      findWaybackSnapshotUrl = (\<lambda>u. if u = ''gone'' then Some ''snap'' else None),
      hostnameOf = (\<lambda>u. None),
      slugOfAlbumUrl = (\<lambda>u. None),
      normalizeCcLicenseUrl = (\<lambda>u. None),
      encodeURIComponent = (\<lambda>q. q),
      matchLicenseType =
        (\<lambda>t. if t = ''type4'' then [4] else if t = ''type3 type5'' then [3, 5] else []),
      matchLicenseName = (\<lambda>t. []),
      matchLicenseSectionUrls = (\<lambda>t. []),
      matchAlbumLinks = (\<lambda>t. [])\<rparr>"

definition demo_options :: options where
  "demo_options =
     \<lparr>opt_write = True, useArchive = True, useSearchAlias = True,
      useDomainConsensus = True, domainMinKnown = 20, domainMinPurity = 1\<rparr>"

definition demo_ctx :: ctx where
  "demo_ctx =
     \<lparr>c_options = demo_options,
      validBcIds = [3, 4, 5], slugToBcId = Map.empty, domainConsensus = [],
      licenseById = Map.empty\<rparr>"

definition demo_row :: "nat \<Rightarrow> string \<Rightarrow> row" where
  "demo_row i u = \<lparr>url_id = i, url = u, title = None, license = None, status = None,
                   health_checked_at = None, health_reason = None\<rparr>"

text \<open>A record that an earlier pass marked dead after an archive-sourced decision, and
  the license category 4 with a cached count.\<close>

definition dead_row :: row where
  "dead_row = \<lparr>url_id = 1, url = ''https://a.bandcamp.com/album/x'', title = None,
     license = Some 4, status = Some ''dead'', health_checked_at = None,
     health_reason = Some ''http_404''\<rparr>"

definition cat4 :: "nat \<Rightarrow> license_cat" where
  "cat4 n = \<lparr>l_name = Some ''by-sa'', l_url = None, l_bc_id = Some 4, l_count = n\<rparr>"

text \<open>An orchestrator run with stall threshold 3 and pass cap 10: pass 1 maps two
  records, every later pass maps none, and seven records stay missing.\<close>

definition stall_options :: orch_options where
  "stall_options = \<lparr>maxPasses = 10, stopAfterNoProgressPasses = 3\<rparr>"

definition stall_reports :: "nat \<Rightarrow> pass_report" where
  "stall_reports k =
     (if k = 1 then \<lparr>missing_after = Some 7, summary_mapped = Some 2\<rparr>
      else \<lparr>missing_after = Some 7, summary_mapped = Some 0\<rparr>)"

text \<open>
  Inputs for the domain-consensus fallback. Every address below
  \<^verbatim>\<open>https://artist.bandcamp.com/\<close> has the host \<^verbatim>\<open>artist.bandcamp.com\<close>, every other one the
  host \<^verbatim>\<open>other.bandcamp.com\<close>.
\<close>

definition consensus_env :: env where
  "consensus_env =
     demo_env\<lparr>hostnameOf :=
       (\<lambda>u. if prefix ''https://artist.bandcamp.com/'' u then Some ''artist.bandcamp.com''
             else Some ''other.bandcamp.com'')\<rparr>"

definition licensed_row :: "nat \<Rightarrow> string \<Rightarrow> int \<Rightarrow> row" where
  "licensed_row i u b = (demo_row i u)\<lparr>license := Some b\<rparr>"

text \<open>A domain with 15 known records, all of license 3.\<close>

definition uniform_rows :: "row list" where
  "uniform_rows = map (\<lambda>i. licensed_row i ''https://artist.bandcamp.com/album/a'' 3) [0 ..< 15]"

text \<open>A domain with 25 known records: the first and the last carry license 5, the 23
  between them license 3. The dataset also holds two records of another host, with
  license 4, and one record of the domain whose license is not resolved.\<close>

definition mixed_rows :: "row list" where
  "mixed_rows =
     [licensed_row 0 ''https://artist.bandcamp.com/album/a'' 5,
      licensed_row 1 ''https://other.bandcamp.com/album/b'' 4,
      demo_row 2 ''https://artist.bandcamp.com/album/c''] @
     map (\<lambda>i. licensed_row i ''https://artist.bandcamp.com/album/d'' 3) [3 ..< 26] @
     [licensed_row 26 ''https://artist.bandcamp.com/album/e'' 5,
      licensed_row 27 ''https://other.bandcamp.com/album/f'' 4]"

text \<open>A domain with 10 known records, nine of license 3 and one of license 5.\<close>

definition nine_of_ten_rows :: "row list" where
  "nine_of_ten_rows =
     map (\<lambda>i. licensed_row i ''https://artist.bandcamp.com/album/a'' 3) [0 ..< 9] @
     [licensed_row 9 ''https://artist.bandcamp.com/album/b'' 5]"

text \<open>The context of a run over a dataset, with the thresholds \<^verbatim>\<open>domainMinKnown\<close> and
  \<^verbatim>\<open>domainMinPurity\<close>, and an unresolved record of the domain.\<close>

definition consensus_ctx :: "row list \<Rightarrow> nat \<Rightarrow> rat \<Rightarrow> ctx" where
  "consensus_ctx rows minKnown minPurity =
     \<lparr>c_options = demo_options\<lparr>domainMinKnown := minKnown, domainMinPurity := minPurity\<rparr>,
      validBcIds = [3, 4, 5], slugToBcId = Map.empty,
      domainConsensus = buildDomainConsensus consensus_env rows,
      licenseById = Map.empty\<rparr>"

definition consensus_row :: row where
  "consensus_row = demo_row 99 ''https://artist.bandcamp.com/album/new''"

text \<open>A platform search that returns two distinct album links with the slug
  \<^verbatim>\<open>night-songs\<close> for every query.\<close>

definition alias_env :: env where
  "alias_env =
     demo_env\<lparr>hostnameOf := (\<lambda>u. Some ''artist.bandcamp.com''),
               slugOfAlbumUrl :=
                 (\<lambda>u. if u = ''https://artist.bandcamp.com/album/night-songs'' \<or>
                          u = ''https://artist2.bandcamp.com/album/night-songs'' \<or>
                          u = ''https://other.bandcamp.com/album/night-songs''
                       then Some ''night-songs'' else None),
               matchAlbumLinks :=
                 (\<lambda>t. [''https://artist2.bandcamp.com/album/night-songs'',
                       ''https://other.bandcamp.com/album/night-songs''])\<rparr>"

text \<open>Two runs on two unresolved records. In the first, \<^verbatim>\<open>gone\<close> is decided from its
  snapshot and \<^verbatim>\<open>amb\<close> stays unresolved; in the second, a day later, the page of \<^verbatim>\<open>amb\<close>
  carries the single type marker 5.\<close>

definition history_urls :: "row list" where
  "history_urls = [demo_row 1 ''gone'', demo_row 2 ''amb'']"

definition history_licenses :: "license_cat list" where
  "history_licenses =
     [\<lparr>l_name = Some ''by'', l_url = None, l_bc_id = Some 3, l_count = 0\<rparr>,
      \<lparr>l_name = Some ''by-sa'', l_url = None, l_bc_id = Some 4, l_count = 0\<rparr>,
      \<lparr>l_name = Some ''by-nc'', l_url = None, l_bc_id = Some 5, l_count = 0\<rparr>]"

definition history_runs :: "run list" where
  "history_runs =
     [\<lparr>run_env = demo_env, run_options = demo_options,
       run_timestamp = ''2024-05-01T00:00:00.000Z''\<rparr>,
      \<lparr>run_env = demo_env\<lparr>matchLicenseType := (\<lambda>t. if t = ''type3 type5'' then [5] else [])\<rparr>,
       run_options = demo_options,
       run_timestamp = ''2024-05-02T00:00:00.000Z''\<rparr>]"

section \<open>Properties of the containers\<close>

lemma set_set_add: "set (set_add x s) = insert x (set s)"
  by (auto simp: set_add_def)

lemma distinct_set_add: "distinct s \<Longrightarrow> distinct (set_add x s)"
  by (simp add: set_add_def)

lemma set_foldl_set_add: "set (foldl (\<lambda>s x. set_add x s) acc xs) = set acc \<union> set xs"
  by (induction xs arbitrary: acc) (auto simp: set_set_add)

lemma distinct_foldl_set_add:
  "distinct acc \<Longrightarrow> distinct (foldl (\<lambda>s x. set_add x s) acc xs)"
  by (induction xs arbitrary: acc) (auto simp: distinct_set_add)

lemma set_new_Set: "set (new_Set xs) = set xs"
  by (simp add: new_Set_def set_foldl_set_add)

lemma distinct_new_Set: "distinct (new_Set xs)"
  by (simp add: new_Set_def distinct_foldl_set_add)

lemma length_one_nth0: "length xs = 1 \<Longrightarrow> xs = [xs ! 0]"
  by (cases xs) auto

lemma length_one_set: "length xs = 1 \<Longrightarrow> set xs = {xs ! 0}"
  using length_one_nth0 [of xs] by (metis list.simps(15) empty_set)

section \<open>Evidence reconciliation\<close>

text \<open>
  C1, as amended. When the type-marker strategy yields nothing and the section-link and
  name-marker strategies yield one id each, the two ids being different, the reconciler
  does decide: rule 3 accepts the section-link id with provenance
  \<^verbatim>\<open>license_section\<close>. It does not report "no decision".
\<close>

theorem decideMappedId_conflicting_singletons:
  "a \<noteq> b \<Longrightarrow>
   decideMappedId \<lparr>typeIds = [], sectionIds = [a], nameIds = [b]\<rparr> =
     Some \<lparr>bcId = a, source = ''license_section''\<rparr>"
  by (simp add: decideMappedId_def new_Set_def set_add_def)

theorem decideMappedId_conflicting_singletons_witness:
  "(3::int) \<noteq> 5 \<and>
   decideMappedId \<lparr>typeIds = [], sectionIds = [3], nameIds = [5]\<rparr> =
     Some \<lparr>bcId = 3, source = ''license_section''\<rparr>"
  using decideMappedId_conflicting_singletons [of 3 5] by simp

text \<open>
  C1, as stated, fails on the spec's own example: type-marker \<open>{}\<close>, section-link
  \<open>{3}\<close>, name-marker \<open>{5}\<close> is decided, not left undecided.
\<close>

theorem decideMappedId_no_decision_counterexample:
  "decideMappedId \<lparr>typeIds = [], sectionIds = [3], nameIds = [5]\<rparr> \<noteq> None"
  by (simp add: decideMappedId_def new_Set_def set_add_def)

text \<open>
  C10. A decision of the reconciler never invents an id: the id is in the union of the
  three candidate sets, and the provenance names where it came from. For
  \<^verbatim>\<open>license_type\<close>, \<^verbatim>\<open>license_section\<close> and \<^verbatim>\<open>license_name\<close> the id is in that
  strategy's set; for \<^verbatim>\<open>combined_single\<close> the union of the three sets is exactly that
  one id, so every strategy that found anything found it.
\<close>

theorem decideMappedId_sound:
  "decideMappedId e = Some d \<Longrightarrow>
   bcId d \<in> set (typeIds e) \<union> set (sectionIds e) \<union> set (nameIds e) \<and>
   (source d = ''license_type'' \<and> bcId d \<in> set (typeIds e) \<or>
    source d = ''combined_single'' \<and>
      set (typeIds e) \<union> set (sectionIds e) \<union> set (nameIds e) = {bcId d} \<or>
    source d = ''license_section'' \<and> bcId d \<in> set (sectionIds e) \<or>
    source d = ''license_name'' \<and> bcId d \<in> set (nameIds e))"
proof -
  assume dec: "decideMappedId e = Some d"
  let ?all = "new_Set (typeIds e @ sectionIds e @ nameIds e)"
  consider (type) "length (typeIds e) = 1"
    | (comb) "length (typeIds e) \<noteq> 1" "length ?all = 1"
    | (sect) "length (typeIds e) \<noteq> 1" "length ?all \<noteq> 1" "length (sectionIds e) = 1"
    | (name) "length (typeIds e) \<noteq> 1" "length ?all \<noteq> 1" "length (sectionIds e) \<noteq> 1"
        "length (nameIds e) = 1"
    | (none) "length (typeIds e) \<noteq> 1" "length ?all \<noteq> 1" "length (sectionIds e) \<noteq> 1"
        "length (nameIds e) \<noteq> 1"
    by blast
  then show ?thesis
  proof cases
    case type
    with dec have d: "d = \<lparr>bcId = typeIds e ! 0, source = ''license_type''\<rparr>"
      by (simp add: decideMappedId_def)
    from length_one_set [OF type] show ?thesis by (simp add: d)
  next
    case comb
    with dec have d: "d = \<lparr>bcId = ?all ! 0, source = ''combined_single''\<rparr>"
      by (simp add: decideMappedId_def Let_def)
    from length_one_set [OF comb(2)]
    have "set (typeIds e) \<union> set (sectionIds e) \<union> set (nameIds e) = {?all ! 0}"
      by (simp add: set_new_Set Un_assoc)
    then show ?thesis by (simp add: d)
  next
    case sect
    with dec have d: "d = \<lparr>bcId = sectionIds e ! 0, source = ''license_section''\<rparr>"
      by (simp add: decideMappedId_def Let_def)
    from length_one_set [OF sect(3)] show ?thesis by (simp add: d)
  next
    case name
    with dec have d: "d = \<lparr>bcId = nameIds e ! 0, source = ''license_name''\<rparr>"
      by (simp add: decideMappedId_def Let_def)
    from length_one_set [OF name(4)] show ?thesis by (simp add: d)
  next
    case none
    with dec show ?thesis by (simp add: decideMappedId_def Let_def)
  qed
qed

theorem decideMappedId_sound_witness:
  "decideMappedId \<lparr>typeIds = [3], sectionIds = [3, 5], nameIds = []\<rparr> =
     Some \<lparr>bcId = 3, source = ''license_type''\<rparr> \<and>
   (3::int) \<in> set [3] \<union> set [3, 5] \<union> set []"
proof -
  have h: "decideMappedId \<lparr>typeIds = [3], sectionIds = [3, 5], nameIds = []\<rparr> =
     Some \<lparr>bcId = 3, source = ''license_type''\<rparr>"
    by (simp add: decideMappedId_def)
  from decideMappedId_sound [OF h] h show ?thesis by simp
qed

section \<open>Archive fallback and the merged record\<close>

lemmas demo_defs = demo_env_def demo_ctx_def demo_options_def demo_row_def page_ok_def
  decidePage_def extractLicenseTypeIds_def extractLicenseSectionIds_def
  extractLicenseNameIds_def decideMappedId_def new_Set_def set_add_def

text \<open>
  C2, as amended. When the live fetch answers 404 without deciding, the archive
  fallback is enabled, and the evidence of the archived snapshot decides an id, the
  outcome carries that id with the provenance \<^verbatim>\<open>wayback_<source>\<close>, and the merged
  record has \<^verbatim>\<open>status = dead\<close>, \<^verbatim>\<open>license\<close> the decided id and
  \<^verbatim>\<open>health_reason = http_404\<close>. The archive-sourced tag stays in the outcome of the
  report; it is not what the record's \<^verbatim>\<open>health_reason\<close> holds.
\<close>

theorem archive_decision_marks_dead:
  assumes "useArchive (c_options cx)"
      and "f_status (fetchWithRetries en (url r)) = Some 404"
      and "decidePage en cx (fetchWithRetries en (url r)) = None"
      and "findWaybackSnapshotUrl en (url r) = Some snap" and "snap \<noteq> []"
      and "decidePage en cx (fetchWithRetries en snap) = Some d"
  shows "o_mapped (inspectRow en cx r) =
           Some \<lparr>m_bc_id = Some (bcId d), m_name = licenseById cx (bcId d),
                 m_source = ''wayback_'' @ source d\<rparr> \<and>
         status (mergeRow ts (inspectRow en cx r) r) = Some ''dead'' \<and>
         license (mergeRow ts (inspectRow en cx r) r) = Some (bcId d) \<and>
         health_reason (mergeRow ts (inspectRow en cx r) r) = Some ''http_404''"
proof -
  have out: "inspectRow en cx r =
      \<lparr>o_url_id = url_id r, o_url = url r, o_title = title r,
       o_status = Some 404, o_final_url = f_finalUrl (fetchWithRetries en (url r)),
       o_archive_status = f_status (fetchWithRetries en snap), o_archive_url = Some snap,
       o_alias_url = None,
       o_mapped = Some \<lparr>m_bc_id = Some (bcId d), m_name = licenseById cx (bcId d),
                         m_source = ''wayback_'' @ source d\<rparr>,
       o_reason = None\<rparr>"
    using assms by (simp add: inspectRow_def liveStep_def archiveStep_def Let_def)
  show ?thesis
    by (simp add: out mergeRow_def Let_def)
qed

theorem archive_decision_marks_dead_witness:
  "o_mapped (inspectRow demo_env demo_ctx (demo_row 1 ''gone'')) =
     Some \<lparr>m_bc_id = Some 4, m_name = None, m_source = ''wayback_license_type''\<rparr> \<and>
   status (mergeRow ''2024-05-01T00:00:00.000Z'' (inspectRow demo_env demo_ctx (demo_row 1 ''gone''))
      (demo_row 1 ''gone'')) = Some ''dead'' \<and>
   license (mergeRow ''2024-05-01T00:00:00.000Z'' (inspectRow demo_env demo_ctx (demo_row 1 ''gone''))
      (demo_row 1 ''gone'')) = Some 4 \<and>
   health_reason (mergeRow ''2024-05-01T00:00:00.000Z''
      (inspectRow demo_env demo_ctx (demo_row 1 ''gone'')) (demo_row 1 ''gone'')) = Some ''http_404''"
proof -
  have 1: "useArchive (c_options demo_ctx)"
    by (simp add: demo_defs)
  have 2: "f_status (fetchWithRetries demo_env (url (demo_row 1 ''gone''))) = Some 404"
    by (simp add: demo_defs)
  have 3: "decidePage demo_env demo_ctx (fetchWithRetries demo_env (url (demo_row 1 ''gone''))) = None"
    by (simp add: demo_defs)
  have 4: "findWaybackSnapshotUrl demo_env (url (demo_row 1 ''gone'')) = Some ''snap''"
    by (simp add: demo_defs)
  have 5: "''snap'' \<noteq> []"
    by simp
  have 6: "decidePage demo_env demo_ctx (fetchWithRetries demo_env ''snap'') =
      Some \<lparr>bcId = 4, source = ''license_type''\<rparr>"
    by (simp add: demo_defs)
  from archive_decision_marks_dead [OF 1 2 3 4 5 6, of "''2024-05-01T00:00:00.000Z''"]
  show ?thesis by (simp add: demo_ctx_def)
qed

text \<open>
  C2, as stated, fails: for a record whose live fetch answers 404 and whose snapshot
  decides id 4, the merged \<^verbatim>\<open>health_reason\<close> is \<^verbatim>\<open>http_404\<close>, which does not start with
  the archive-sourced tag \<^verbatim>\<open>wayback_\<close>.
\<close>

theorem archive_health_reason_counterexample:
  "f_status (fetchWithRetries demo_env (url (demo_row 1 ''gone''))) = Some 404 \<and>
   findWaybackSnapshotUrl demo_env (url (demo_row 1 ''gone'')) = Some ''snap'' \<and>
   decidePage demo_env demo_ctx (fetchWithRetries demo_env ''snap'') =
     Some \<lparr>bcId = 4, source = ''license_type''\<rparr> \<and>
   health_reason (mergeRow ''2024-05-01T00:00:00.000Z''
      (inspectRow demo_env demo_ctx (demo_row 1 ''gone'')) (demo_row 1 ''gone'')) = Some ''http_404'' \<and>
   \<not> prefix ''wayback_'' ''http_404''"
  by (simp add: demo_defs inspectRow_def liveStep_def archiveStep_def mergeRow_def Let_def)

section \<open>Ambiguous evidence and the unresolved reason\<close>

lemma length_new_Set_0: "length (new_Set xs) = 0 \<longleftrightarrow> xs = []"
  using set_new_Set [of xs] by (metis length_0_conv set_empty)

lemma matchedTargets_Nil: "matchedTargets tm [] = []"
  by (simp add: matchedTargets_def)

text \<open>
  C8, as amended. In the exact fixer, the outcome of an inspected page has the reason
  \<^verbatim>\<open>ambiguous_exact_matches\<close> exactly when the legitimate targets matched on the page
  carry two or more distinct ids; a page without any matching evidence gets
  \<^verbatim>\<open>http_status_<n>\<close> or \<^verbatim>\<open>no_exact_legitimate_match\<close> instead. The accelerated fixer has
  no ambiguity reason: its unresolved outcomes are classified by the live fetch alone
  (\<^verbatim>\<open>unresolved_status_<n>\<close> or \<^verbatim>\<open>fetch_error:<message>\<close>).
\<close>

theorem exact_ambiguity_reason:
  "x_reason (classifyPage xe tm listing pg) = Some ''ambiguous_exact_matches'' \<longleftrightarrow>
     2 \<le> length (uniqueBcIds (matchedTargets tm (extractCcLicenseUrls xe (p_text pg))))"
proof -
  let ?det = "extractCcLicenseUrls xe (p_text pg)"
  let ?m = "matchedTargets tm ?det"
  let ?ids = "uniqueBcIds ?m"
  have a: "length ?ids = 0 \<longleftrightarrow> ?m = []"
    by (simp add: uniqueBcIds_def length_new_Set_0 del: length_0_conv)
  have b: "?det = [] \<Longrightarrow> ?m = []" by (simp add: matchedTargets_Nil)
  consider "length ?ids = 0" | "length ?ids = 1" | "2 \<le> length ?ids" by linarith
  then show ?thesis
  proof cases
    case 1
    with a have "?m = []" by simp
    with 1 show ?thesis by (simp add: classifyPage_def Let_def)
  next
    case 2
    then show ?thesis by (simp add: classifyPage_def Let_def)
  next
    case 3
    with a have m: "?m \<noteq> []" by auto
    with b have "?det \<noteq> []" by blast
    with 3 m show ?thesis by (simp add: classifyPage_def Let_def)
  qed
qed

text \<open>The retry loop of \<^verbatim>\<open>inspectListing\<close> ends with the classification of a page it
  fetched, or with \<^verbatim>\<open>fetch_error\<close> when the last attempt threw.\<close>

lemma inspectAttempts_outcome:
  "(\<exists>k pg. fetchPage xe (url listing) k = Inr pg \<and>
       inspectAttempts xe opts tm listing a e = classifyPage xe tm listing pg) \<or>
   x_reason (inspectAttempts xe opts tm listing a e) = Some ''fetch_error''"
proof (induction xe opts tm listing a e rule: inspectAttempts.induct)
  case (1 xe opts tm listing a e)
  show ?case
  proof (cases "a \<le> x_retries opts + 1")
    case False
    then show ?thesis
      by (subst (2) inspectAttempts.simps) simp
  next
    case True
    note inrange = this
    show ?thesis
    proof (cases "fetchPage xe (url listing) a")
      case (Inl msg)
      from "1.IH"(1) [OF inrange Inl]
      have "(\<exists>k pg. fetchPage xe (url listing) k = Inr pg \<and>
          inspectAttempts xe opts tm listing (a + 1) (Some msg) = classifyPage xe tm listing pg) \<or>
        x_reason (inspectAttempts xe opts tm listing (a + 1) (Some msg)) = Some ''fetch_error''" .
      moreover have "inspectAttempts xe opts tm listing a e =
          inspectAttempts xe opts tm listing (a + 1) (Some msg)"
        using inrange Inl by (subst inspectAttempts.simps) simp
      ultimately show ?thesis by simp
    next
      case (Inr pg)
      show ?thesis
      proof (cases "p_status pg \<in> set (retryStatuses opts) \<and> a < x_retries opts + 1")
        case True
        from "1.IH"(2) [OF inrange Inr True]
        have "(\<exists>k pg. fetchPage xe (url listing) k = Inr pg \<and>
            inspectAttempts xe opts tm listing (a + 1) e = classifyPage xe tm listing pg) \<or>
          x_reason (inspectAttempts xe opts tm listing (a + 1) e) = Some ''fetch_error''" .
        moreover have "inspectAttempts xe opts tm listing a e =
            inspectAttempts xe opts tm listing (a + 1) e"
          using inrange Inr True by (subst inspectAttempts.simps) simp
        ultimately show ?thesis by simp
      next
        case False
        have "inspectAttempts xe opts tm listing a e = classifyPage xe tm listing pg"
          using inrange Inr False by (subst inspectAttempts.simps) auto
        with Inr show ?thesis by blast
      qed
    qed
  qed
qed

lemma inspectListing_outcome:
  "(\<exists>k pg. fetchPage xe (url listing) k = Inr pg \<and>
       inspectListing xe opts tm listing = classifyPage xe tm listing pg) \<or>
   x_reason (inspectListing xe opts tm listing) = Some ''fetch_error''"
  unfolding inspectListing_def by (rule inspectAttempts_outcome)

text \<open>
  C8, as stated, fails on the accelerated fixer: a page with the conflicting type
  markers 3 and 5 (no decision) and a page without any evidence, both answering 200,
  get the same reason \<^verbatim>\<open>unresolved_status_200\<close>.
\<close>

theorem accelerated_ambiguity_reason_counterexample:
  "extractLicenseTypeIds demo_env ''type3 type5'' (validBcIds demo_ctx) = [3, 5] \<and>
   decidePage demo_env demo_ctx (fetchWithRetries demo_env ''amb'') = None \<and>
   o_reason (inspectRow demo_env demo_ctx (demo_row 2 ''amb'')) = Some ''unresolved_status_200'' \<and>
   extractLicenseTypeIds demo_env ''plain'' (validBcIds demo_ctx) = [] \<and>
   o_reason (inspectRow demo_env demo_ctx (demo_row 3 ''plain'')) = Some ''unresolved_status_200''"
  by (simp add: demo_defs inspectRow_def liveStep_def archiveStep_def aliasStep_def
      consensusStep_def unresolvedOutcome_def truthy_def digit_char_def Let_def)

section \<open>License counts after a merge\<close>

lemma countsByBcId_fold:
  "(case foldl (\<lambda>m r. if isVisibleActiveRow r valid
                   then (case license r of
                           None \<Rightarrow> m
                         | Some l \<Rightarrow> m(l \<mapsto> (case m l of None \<Rightarrow> 0 | Some n \<Rightarrow> n) + 1))
                   else m) m0 urls b of None \<Rightarrow> 0 | Some n \<Rightarrow> n) =
   (case m0 b of None \<Rightarrow> 0 | Some n \<Rightarrow> n) +
     length (filter (\<lambda>r. isVisibleActiveRow r valid \<and> license r = Some b) urls)"
proof (induction urls arbitrary: m0)
  case Nil
  then show ?case by simp
next
  case (Cons r urls)
  show ?case
    by (simp add: Cons.IH split: option.splits)
qed

lemma countsByBcId_eq:
  "(case countsByBcId urls valid b of None \<Rightarrow> 0 | Some n \<Rightarrow> n) =
     length (filter (\<lambda>r. isVisibleActiveRow r valid \<and> license r = Some b) urls)"
  unfolding countsByBcId_def by (simp add: countsByBcId_fold)

lemma exactCounts_fold:
  "(case foldl (\<lambda>m r. case license r of
                     None \<Rightarrow> m
                   | Some l \<Rightarrow> m(l \<mapsto> (case m l of None \<Rightarrow> 0 | Some n \<Rightarrow> n) + 1)) m0 urls b
    of None \<Rightarrow> 0 | Some n \<Rightarrow> n) =
   (case m0 b of None \<Rightarrow> 0 | Some n \<Rightarrow> n) + length (filter (\<lambda>r. license r = Some b) urls)"
proof (induction urls arbitrary: m0)
  case Nil
  then show ?case by simp
next
  case (Cons r urls)
  show ?case
    by (simp add: Cons.IH split: option.splits)
qed

lemma exactCountsByBcId_eq:
  "(case exactCountsByBcId urls b of None \<Rightarrow> 0 | Some n \<Rightarrow> n) =
     length (filter (\<lambda>r. license r = Some b) urls)"
  unfolding exactCountsByBcId_def by (simp add: exactCounts_fold)

lemma set_validBcIdsOf:
  "set (validBcIdsOf ls) = {b. \<exists>l \<in> set ls. l_bc_id l = Some b}"
  by (auto simp: validBcIdsOf_def set_new_Set split: option.splits)

text \<open>What the two recounts compute: the accelerated fixer counts the active rows of
  a category, the exact fixer all its rows.\<close>

lemma acceleratedMerge_counts:
  assumes "l \<in> set (snd (acceleratedMerge ts rs files))"
  shows "\<exists>b. l_bc_id l = Some b \<and>
     l_count l = length (filter (\<lambda>r. normalizedStatus (status r) = ''active'' \<and> license r = Some b)
                    (fst (acceleratedMerge ts rs files)))"
proof -
  let ?urls = "mergeRows ts rs (fst files)"
  let ?valid = "validLicenses (snd files)"
  from assms obtain l0 where l0: "l0 \<in> set ?valid"
    and l: "l = \<lparr>l_name = l_name l0, l_url = l_url l0, l_bc_id = l_bc_id l0,
                l_count = (case l_bc_id l0 of None \<Rightarrow> 0
                    | Some b \<Rightarrow> (case countsByBcId ?urls (validBcIdsOf ?valid) b of None \<Rightarrow> 0 | Some n \<Rightarrow> n))\<rparr>"
    by (auto simp: acceleratedMerge_def cleanedLicenses_def Let_def)
  from l0 obtain b where b: "l_bc_id l0 = Some b"
    by (auto simp: validLicenses_def)
  with l0 have bv: "b \<in> set (validBcIdsOf ?valid)"
    by (auto simp: set_validBcIdsOf)
  have "l_count l = length (filter (\<lambda>r. isVisibleActiveRow r (validBcIdsOf ?valid) \<and> license r = Some b) ?urls)"
    by (simp add: l b countsByBcId_eq)
  also have "(\<lambda>r. isVisibleActiveRow r (validBcIdsOf ?valid) \<and> license r = Some b) =
     (\<lambda>r. normalizedStatus (status r) = ''active'' \<and> license r = Some b)"
    using bv by (auto simp: isVisibleActiveRow_def fun_eq_iff)
  finally show ?thesis
    by (auto simp: l b acceleratedMerge_def Let_def)
qed

lemma exactMerge_counts:
  assumes "l \<in> set (snd (exactMerge rs files))"
  shows "\<exists>b. l_bc_id l = Some b \<and>
     l_count l = length (filter (\<lambda>r. license r = Some b) (fst (exactMerge rs files)))"
  using assms
  by (auto simp: exactMerge_def cleanedLicenses_def Let_def validLicenses_def exactCountsByBcId_eq)

text \<open>
  C3. The exact fixer counts every row whose license is an integer, whatever its
  status, so a dead row is counted: on a dataset holding one dead record with license 4
  it writes \<^verbatim>\<open>count = 1\<close> for category 4, while no active record references that
  category; the accelerated fixer writes \<^verbatim>\<open>count = 0\<close> on the same input.
\<close>

theorem exact_counts_dead_rows:
  "exactMerge [] ([dead_row], [cat4 0]) = ([dead_row], [cat4 1]) \<and>
   length (filter (\<lambda>r. normalizedStatus (status r) = ''active'' \<and> license r = Some 4)
      [dead_row]) = 0 \<and>
   acceleratedMerge ''2024-05-01T00:00:00.000Z'' [] ([dead_row], [cat4 0]) = ([dead_row], [cat4 0])"
  by (simp add: exactMerge_def acceleratedMerge_def exactMergeRows_def mergeRows_def
      resultsById_def resultById_def cleanedLicenses_def validLicenses_def exactCountsByBcId_def
      countsByBcId_def isVisibleActiveRow_def normalizedStatus_def dead_row_def cat4_def
      validBcIdsOf_def new_Set_def set_add_def Let_def)

section \<open>Idempotence of the merge\<close>

lemma url_id_mergeRow [simp]: "url_id (mergeRow ts m r) = url_id r"
  by (cases "o_mapped m"; cases "o_alias_url m"; cases "m_bc_id (the (o_mapped m))")
     (simp_all add: mergeRow_def Let_def)

lemma mergeRow_idem: "mergeRow ts m (mergeRow ts m r) = mergeRow ts m r"
  by (cases "o_mapped m"; cases "o_alias_url m"; cases "m_bc_id (the (o_mapped m))")
     (simp_all add: mergeRow_def Let_def)

lemma mergeRows_idem: "mergeRows ts rs (mergeRows ts rs urls) = mergeRows ts rs urls"
proof -
  define f where "f = (\<lambda>r. case resultById rs (url_id r) of None \<Rightarrow> r | Some m \<Rightarrow> mergeRow ts m r)"
  have "f (f r) = f r" for r
    by (cases "resultById rs (url_id r)") (simp_all add: f_def mergeRow_idem)
  then have "map f (map f urls) = map f urls"
    by simp
  then show ?thesis
    by (simp add: mergeRows_def f_def)
qed

lemma exactMergeRows_idem: "exactMergeRows rs (exactMergeRows rs urls) = exactMergeRows rs urls"
proof -
  define f :: "row \<Rightarrow> row" where "f = (\<lambda>r. case resultsById rs (url_id r) of None \<Rightarrow> r
         | Some m \<Rightarrow> (case x_mapped m of None \<Rightarrow> r
             | Some mp \<Rightarrow> (case xm_bc_id mp of None \<Rightarrow> r | Some b \<Rightarrow> r\<lparr>license := Some b\<rparr>)))"
  have "f (f r) = f r" for r
    by (cases "resultsById rs (url_id r)"; cases "x_mapped (the (resultsById rs (url_id r)))";
        cases "xm_bc_id (the (x_mapped (the (resultsById rs (url_id r)))))")
       (simp_all add: f_def)
  then have "map f (map f urls) = map f urls"
    by simp
  then show ?thesis
    by (simp add: exactMergeRows_def f_def)
qed

lemma validLicenses_cleaned:
  "validLicenses (cleanedLicenses c (validLicenses ls)) = cleanedLicenses c (validLicenses ls)"
  by (simp add: validLicenses_def cleanedLicenses_def filter_map o_def)

lemma cleaned_cleaned:
  "cleanedLicenses c (cleanedLicenses c' ls) = cleanedLicenses c ls"
  by (simp add: cleanedLicenses_def)

lemma validBcIdsOf_cleaned: "validBcIdsOf (cleanedLicenses c ls) = validBcIdsOf ls"
  by (simp add: validBcIdsOf_def cleanedLicenses_def o_def)

text \<open>
  C5. Applying a batch of outcomes (with the timestamp of its run) to the two files and
  then applying the same batch again gives the same records and the same license
  entries, counts included, as applying it once; this holds for the merge of the
  accelerated fixer and for the merge of the exact fixer, on every input.
\<close>

theorem merge_idempotent:
  "acceleratedMerge ts rs (acceleratedMerge ts rs files) = acceleratedMerge ts rs files \<and>
   exactMerge xs (exactMerge xs files) = exactMerge xs files"
  by (simp add: acceleratedMerge_def exactMerge_def Let_def mergeRows_idem exactMergeRows_idem
      validLicenses_cleaned cleaned_cleaned validBcIdsOf_cleaned)

section \<open>Multi-pass orchestrator: when the loop stops\<close>

lemma noProgressCount_0: "noProgressCount reports 0 = 0"
  by (simp add: noProgressCount_def)

lemma noProgressCount_Suc:
  "noProgressCount reports (Suc n) =
     (if mappedOf (reports (Suc n)) = 0 then Suc (noProgressCount reports n) else 0)"
  by (simp add: noProgressCount_def)

lemma noProgressCount_ge:
  "N \<le> noProgressCount reports n \<longleftrightarrow>
     N \<le> n \<and> (\<forall>k. n - N < k \<and> k \<le> n \<longrightarrow> mappedOf (reports k) = 0)"
proof (induction n arbitrary: N)
  case 0
  then show ?case by (auto simp: noProgressCount_0)
next
  case (Suc n)
  show ?case
  proof (cases N)
    case 0
    then show ?thesis by simp
  next
    case (Suc M)
    show ?thesis
    proof (cases "mappedOf (reports (Suc n)) = 0")
      case True
      have "(\<forall>k. Suc n - Suc M < k \<and> k \<le> Suc n \<longrightarrow> mappedOf (reports k) = 0) \<longleftrightarrow>
            (\<forall>k. n - M < k \<and> k \<le> n \<longrightarrow> mappedOf (reports k) = 0)"
        using True by (auto simp: le_Suc_eq)
      then show ?thesis
        using Suc.IH [of M] True by (simp add: noProgressCount_Suc Suc)
    next
      case False
      then have "\<not> (\<forall>k. Suc n - N < k \<and> k \<le> Suc n \<longrightarrow> mappedOf (reports k) = 0)"
        using Suc by (intro notI) (drule spec [of _ "Suc n"], simp)
      with False show ?thesis
        by (simp add: noProgressCount_Suc Suc)
    qed
  qed
qed

lemma stalledAt_iff:
  "stalledAt N reports n \<longleftrightarrow> 0 < N \<and> N \<le> noProgressCount reports n"
proof (cases "N \<le> n")
  case True
  then have "set [Suc n - N ..< Suc n] = {k. n - N < k \<and> k \<le> n}"
    by (auto simp: Suc_diff_le)
  then have "list_all (\<lambda>k. mappedOf (reports k) = 0) [Suc n - N ..< Suc n] \<longleftrightarrow>
     (\<forall>k. n - N < k \<and> k \<le> n \<longrightarrow> mappedOf (reports k) = 0)"
    unfolding list_all_iff by blast
  with True show ?thesis
    by (simp add: stalledAt_def noProgressCount_ge)
next
  case False
  then show ?thesis
    by (simp add: stalledAt_def noProgressCount_ge)
qed

text \<open>The three tests of the loop body are the specification's conditions.\<close>

lemma passLoop_step:
  "passLoop opts reports p (noProgressCount reports p) =
     (if doneAfter opts reports (Suc p)
      then Some (Suc p, noProgressCount reports (Suc p), stopReason opts reports (Suc p))
      else passLoop opts reports (Suc p) (noProgressCount reports (Suc p)))"
  by (subst passLoop.simps)
     (simp add: Let_def doneAfter_def stopReason_def stalledAt_iff noProgressCount_Suc)

lemma passLoop_reaches:
  assumes "doneAfter opts reports n" and "\<forall>k. p < k \<and> k < n \<longrightarrow> \<not> doneAfter opts reports k"
    and "p < n"
  shows "passLoop opts reports p (noProgressCount reports p) =
     Some (n, noProgressCount reports n, stopReason opts reports n)"
  using assms
proof (induction "n - p" arbitrary: p)
  case 0
  then show ?case by simp
next
  case (Suc d)
  show ?case
  proof (cases "Suc p = n")
    case True
    with Suc.prems show ?thesis
      by (simp add: passLoop_step)
  next
    case False
    with Suc.prems have lt: "Suc p < n" by simp
    with Suc.prems have nd: "\<not> doneAfter opts reports (Suc p)" by simp
    have "passLoop opts reports (Suc p) (noProgressCount reports (Suc p)) =
       Some (n, noProgressCount reports n, stopReason opts reports n)"
      using Suc.hyps Suc.prems lt by (intro Suc.hyps(1)) auto
    with nd show ?thesis
      by (simp add: passLoop_step)
  qed
qed

lemma passLoop_sound_aux:
  assumes "passLoop opts reports p c0 = Some y"
  shows "c0 = noProgressCount reports p \<longrightarrow>
     p < fst y \<and> doneAfter opts reports (fst y) \<and>
     (\<forall>k. p < k \<and> k < fst y \<longrightarrow> \<not> doneAfter opts reports k) \<and>
     snd y = (noProgressCount reports (fst y), stopReason opts reports (fst y))"
proof (rule passLoop.raw_induct [where P = "\<lambda>opts reports p c0 y.
     c0 = noProgressCount reports p \<longrightarrow>
     p < fst y \<and> doneAfter opts reports (fst y) \<and>
     (\<forall>k. p < k \<and> k < fst y \<longrightarrow> \<not> doneAfter opts reports k) \<and>
     snd y = (noProgressCount reports (fst y), stopReason opts reports (fst y))", OF _ assms],
    goal_cases)
  case (1 f opts reports p c0 y)
  show ?case
  proof
    assume c0: "c0 = noProgressCount reports p"
    note body = 1(2)
    show "p < fst y \<and> doneAfter opts reports (fst y) \<and>
     (\<forall>k. p < k \<and> k < fst y \<longrightarrow> \<not> doneAfter opts reports k) \<and>
     snd y = (noProgressCount reports (fst y), stopReason opts reports (fst y))"
    proof (cases "doneAfter opts reports (Suc p)")
      case True
      with body c0 have "y = (Suc p, noProgressCount reports (Suc p), stopReason opts reports (Suc p))"
        by (auto simp: Let_def doneAfter_def stopReason_def stalledAt_iff noProgressCount_Suc
            split: if_splits)
      with True show ?thesis by auto
    next
      case False
      with body c0 have "f opts reports (Suc p) (noProgressCount reports (Suc p)) = Some y"
        by (auto simp: Let_def doneAfter_def stopReason_def stalledAt_iff noProgressCount_Suc
            split: if_splits)
      from 1(1) [OF this] have ih: "Suc p < fst y \<and> doneAfter opts reports (fst y) \<and>
         (\<forall>k. Suc p < k \<and> k < fst y \<longrightarrow> \<not> doneAfter opts reports k) \<and>
         snd y = (noProgressCount reports (fst y), stopReason opts reports (fst y))"
        by simp
      have "\<forall>k. p < k \<and> k < fst y \<longrightarrow> \<not> doneAfter opts reports k"
      proof (intro allI impI)
        fix k assume "p < k \<and> k < fst y"
        then have "k = Suc p \<or> (Suc p < k \<and> k < fst y)" by auto
        with False ih show "\<not> doneAfter opts reports k" by blast
      qed
      with ih show ?thesis by auto
    qed
  qed
qed

lemma passLoop_sound:
  assumes "passLoop opts reports p c0 = Some y" and "c0 = noProgressCount reports p"
  shows "p < fst y \<and> doneAfter opts reports (fst y) \<and>
     (\<forall>k. p < k \<and> k < fst y \<longrightarrow> \<not> doneAfter opts reports k) \<and>
     snd y = (noProgressCount reports (fst y), stopReason opts reports (fst y))"
  using passLoop_sound_aux [OF assms(1)] assms(2) by blast

text \<open>
  C9. The orchestrator loop ends after pass \<open>n\<close>, with counter \<open>c\<close> and reason \<open>why\<close>,
  exactly when \<open>n\<close> is the first pass after which one of the three conditions holds:
  nothing is missing, or \<^verbatim>\<open>mapped\<close> was zero in each of the last \<open>N\<close> passes for the
  configured threshold \<open>N > 0\<close>, or the pass count has reached the configured cap
  (cap \<open>> 0\<close>). If no pass satisfies a condition the loop never ends. The counter is the
  number of consecutive passes with \<^verbatim>\<open>mapped = 0\<close> ending with the last pass, so it is
  zero after every pass with \<^verbatim>\<open>mapped > 0\<close>.
\<close>

theorem orchestrator_stops_exactly:
  "(orchestrate opts reports = Some (n, c, why) \<longleftrightarrow>
      0 < n \<and> doneAfter opts reports n \<and> list_all (\<lambda>k. \<not> doneAfter opts reports k) [1 ..< n] \<and>
      c = noProgressCount reports n \<and> why = stopReason opts reports n) \<and>
   (0 < mappedOf (reports m) \<longrightarrow> noProgressCount reports m = 0)"
proof (rule conjI)
  show "orchestrate opts reports = Some (n, c, why) \<longleftrightarrow>
      0 < n \<and> doneAfter opts reports n \<and> list_all (\<lambda>k. \<not> doneAfter opts reports k) [1 ..< n] \<and>
      c = noProgressCount reports n \<and> why = stopReason opts reports n"
  proof (rule iffI)
    assume run: "orchestrate opts reports = Some (n, c, why)"
    have "0 = noProgressCount reports 0" by (simp add: noProgressCount_0)
    from passLoop_sound [OF run [unfolded orchestrate_def] this]
    show "0 < n \<and> doneAfter opts reports n \<and>
        list_all (\<lambda>k. \<not> doneAfter opts reports k) [1 ..< n] \<and>
        c = noProgressCount reports n \<and> why = stopReason opts reports n"
      by (auto simp: list_all_iff)
  next
    assume r: "0 < n \<and> doneAfter opts reports n \<and>
        list_all (\<lambda>k. \<not> doneAfter opts reports k) [1 ..< n] \<and>
        c = noProgressCount reports n \<and> why = stopReason opts reports n"
    then have "\<forall>k. 0 < k \<and> k < n \<longrightarrow> \<not> doneAfter opts reports k"
      by (auto simp: list_all_iff)
    with r passLoop_reaches [of opts reports n 0]
    show "orchestrate opts reports = Some (n, c, why)"
      by (simp add: orchestrate_def noProgressCount_0)
  qed
next
  show "0 < mappedOf (reports m) \<longrightarrow> noProgressCount reports m = 0"
    by (cases m) (simp_all add: noProgressCount_0 noProgressCount_Suc)
qed

text \<open>The stall example: after a pass that maps two records, three consecutive passes
  with \<^verbatim>\<open>mapped = 0\<close> stop the loop at pass 4 under threshold 3, before the cap of 10.\<close>

theorem orchestrator_stops_exactly_witness:
  "orchestrate stall_options stall_reports = Some (4, 3, Stalled) \<and>
   0 < mappedOf (stall_reports 1) \<and> noProgressCount stall_reports 1 = 0"
proof -
  have rhs: "0 < (4::nat) \<and> doneAfter stall_options stall_reports 4 \<and>
      list_all (\<lambda>k. \<not> doneAfter stall_options stall_reports k) [1 ..< 4] \<and>
      3 = noProgressCount stall_reports 4 \<and> Stalled = stopReason stall_options stall_reports 4"
    by code_simp
  have m: "0 < mappedOf (stall_reports 1)"
    by code_simp
  from orchestrator_stops_exactly [of stall_options stall_reports 4 3 Stalled 1] rhs m
  show ?thesis by blast
qed

section \<open>Domain-consensus fallback\<close>

text \<open>Every host of the bucket is a non-empty string and has at least one license id,
  each with a positive count; so every entry of the consensus table has a majority id.\<close>

lemma set_map_set: "set (map_set k v m) \<subseteq> insert (k, v) (set m)"
  by (induction m) (auto split: if_splits)

lemma map_set_not_Nil: "map_set k v m \<noteq> []"
  by (cases m) (auto split: if_splits)

lemma bucketStep_ok:
  assumes ok: "\<forall>h cs. (h, cs) \<in> set bucket \<longrightarrow>
                 h \<noteq> [] \<and> cs \<noteq> [] \<and> (\<forall>b n. (b, n) \<in> set cs \<longrightarrow> 0 < n)"
  shows "\<forall>h cs. (h, cs) \<in> set (bucketStep en bucket r) \<longrightarrow>
                 h \<noteq> [] \<and> cs \<noteq> [] \<and> (\<forall>b n. (b, n) \<in> set cs \<longrightarrow> 0 < n)"
proof (cases "license r")
  case None
  with ok show ?thesis by (simp add: bucketStep_def)
next
  case (Some lic)
  note lic = this
  show ?thesis
  proof (cases "hostnameOf en (url r)")
    case None
    with ok lic show ?thesis by (simp add: bucketStep_def truthy_def)
  next
    case (Some host)
    note host = this
    show ?thesis
    proof (cases "host = []")
      case True
      with ok host lic show ?thesis
        by (simp add: bucketStep_def truthy_def)
    next
      case False
      define counts where "counts = (case map_of bucket host of None \<Rightarrow> [] | Some c \<Rightarrow> c)"
      define v where "v = (case map_of counts lic of None \<Rightarrow> 0 | Some n \<Rightarrow> n) + 1"
      define counts' where "counts' = map_set lic v counts"
      have step: "bucketStep en bucket r = map_set host counts' bucket"
        using host False lic
        by (simp add: bucketStep_def truthy_def counts_def counts'_def v_def Let_def)
      have old: "\<forall>b n. (b, n) \<in> set counts \<longrightarrow> 0 < n"
      proof (cases "map_of bucket host")
        case None
        then show ?thesis by (simp add: counts_def)
      next
        case (Some c)
        then have "(host, c) \<in> set bucket" by (rule map_of_SomeD)
        with ok have "\<forall>b n. (b, n) \<in> set c \<longrightarrow> 0 < n" by blast
        with Some show ?thesis by (simp add: counts_def)
      qed
      have "0 < v" by (simp add: v_def)
      with old set_map_set [of lic v counts]
      have new: "\<forall>b n. (b, n) \<in> set counts' \<longrightarrow> 0 < n"
        unfolding counts'_def by blast
      have ne: "counts' \<noteq> []" by (simp add: counts'_def map_set_not_Nil)
      show ?thesis
        unfolding step
      proof (intro allI impI)
        fix h cs assume "(h, cs) \<in> set (map_set host counts' bucket)"
        with set_map_set [of host counts' bucket]
        have "(h, cs) = (host, counts') \<or> (h, cs) \<in> set bucket" by blast
        then show "h \<noteq> [] \<and> cs \<noteq> [] \<and> (\<forall>b n. (b, n) \<in> set cs \<longrightarrow> 0 < n)"
          using ok new ne False by blast
      qed
    qed
  qed
qed

lemma foldl_bucketStep_ok:
  assumes "\<forall>h cs. (h, cs) \<in> set bucket \<longrightarrow>
                 h \<noteq> [] \<and> cs \<noteq> [] \<and> (\<forall>b n. (b, n) \<in> set cs \<longrightarrow> 0 < n)"
  shows "\<forall>h cs. (h, cs) \<in> set (foldl (bucketStep en) bucket urls) \<longrightarrow>
                 h \<noteq> [] \<and> cs \<noteq> [] \<and> (\<forall>b n. (b, n) \<in> set cs \<longrightarrow> 0 < n)"
  using assms
proof (induction urls arbitrary: bucket)
  case Nil
  then show ?case by simp
next
  case (Cons r urls)
  have "foldl (bucketStep en) bucket (r # urls) = foldl (bucketStep en) (bucketStep en bucket r) urls"
    by simp
  then show ?case
    using Cons.IH [OF bucketStep_ok [OF Cons.prems, of en r]] by simp
qed

text \<open>\<^verbatim>\<open>Map.prototype.set\<close> on the association list: lookup, keys and the sum of the
  values after an update.\<close>

lemma map_of_map_set: "map_of (map_set k v m) k' = (if k' = k then Some v else map_of m k')"
  by (induction m) auto

lemma keys_map_set:
  "map fst (map_set k v m) = (if k \<in> fst ` set m then map fst m else map fst m @ [k])"
proof (induction m)
  case Nil
  show ?case by simp
next
  case (Cons e m)
  obtain k' v' where e: "e = (k', v')" by (cases e)
  show ?case
  proof (cases "k' = k")
    case True
    then show ?thesis by (simp add: e)
  next
    case False
    then have "k \<in> fst ` set (e # m) \<longleftrightarrow> k \<in> fst ` set m"
      by (auto simp: e)
    with False Cons.IH show ?thesis
      by (simp add: e del: set_simps image_insert)
  qed
qed

lemma distinct_map_set: "distinct (map fst m) \<Longrightarrow> distinct (map fst (map_set k v m))"
  by (simp add: keys_map_set)

lemma sum_map_set:
  "sum_list (map snd (map_set k v m)) + (case map_of m k of None \<Rightarrow> 0 | Some n \<Rightarrow> n) =
     sum_list (map snd m) + (v::nat)"
  by (induction m) auto

text \<open>The second loop of \<^verbatim>\<open>buildDomainConsensus\<close>: \<^verbatim>\<open>total\<close> is the sum of the counts,
  \<^verbatim>\<open>topCount\<close> is the greatest count and \<^verbatim>\<open>topBcId\<close> an id that has it, and \<^verbatim>\<open>purity\<close> is
  the quotient of the two as JavaScript computes it.\<close>

lemma fold_summary:
  assumes "foldl (\<lambda>(tot, topb, topc) (b, n).
       (tot + n, if n > topc then Some b else topb, if n > topc then n else topc))
     (t :: nat, tb :: int option, tc :: nat) counts = (t', tb', tc')"
  shows "t' = t + sum_list (map snd counts) \<and> tc \<le> tc' \<and>
     (\<forall>b n. (b, n) \<in> set counts \<longrightarrow> n \<le> tc') \<and>
     ((tb' = tb \<and> tc' = tc) \<or> (\<exists>b. tb' = Some b \<and> (b, tc') \<in> set counts))"
  using assms
proof (induction counts arbitrary: t tb tc)
  case Nil
  then show ?case by auto
next
  case (Cons e counts)
  obtain b n where e: "e = (b, n)" by (cases e)
  from Cons.prems have step: "foldl (\<lambda>(tot, topb, topc) (b, n).
       (tot + n, if n > topc then Some b else topb, if n > topc then n else topc))
     (t + n, if n > tc then Some b else tb, if n > tc then n else tc) counts = (t', tb', tc')"
    by (simp add: e)
  note ih = Cons.IH [OF step]
  show ?case
  proof (cases "n > tc")
    case True
    with ih have 1: "t' = t + n + sum_list (map snd counts)" and 2: "n \<le> tc'"
      and 3: "\<forall>b n. (b, n) \<in> set counts \<longrightarrow> n \<le> tc'"
      and 4: "(tb' = Some b \<and> tc' = n) \<or> (\<exists>b. tb' = Some b \<and> (b, tc') \<in> set counts)"
      by simp_all
    from 4 have "\<exists>b'. tb' = Some b' \<and> (b', tc') \<in> set (e # counts)"
      by (auto simp: e)
    with 1 2 3 True show ?thesis
      by (auto simp: e)
  next
    case False
    with ih have 1: "t' = t + n + sum_list (map snd counts)" and 2: "tc \<le> tc'"
      and 3: "\<forall>b n. (b, n) \<in> set counts \<longrightarrow> n \<le> tc'"
      and 4: "(tb' = tb \<and> tc' = tc) \<or> (\<exists>b. tb' = Some b \<and> (b, tc') \<in> set counts)"
      by simp_all
    from 4 have "(tb' = tb \<and> tc' = tc) \<or> (\<exists>b'. tb' = Some b' \<and> (b', tc') \<in> set (e # counts))"
      by auto
    with 1 2 3 False show ?thesis
      by (auto simp: e)
  qed
qed

lemma summarizeCounts_fields:
  assumes "counts \<noteq> []" and "\<forall>b n. (b, n) \<in> set counts \<longrightarrow> 0 < n"
  shows "total (summarizeCounts counts) = sum_list (map snd counts) \<and>
     (\<exists>b. topBcId (summarizeCounts counts) = Some b \<and>
          (b, topCount (summarizeCounts counts)) \<in> set counts) \<and>
     (\<forall>b n. (b, n) \<in> set counts \<longrightarrow> n \<le> topCount (summarizeCounts counts)) \<and>
     purity (summarizeCounts counts) =
       (if 0 < total (summarizeCounts counts)
        then js_div (topCount (summarizeCounts counts)) (total (summarizeCounts counts)) else 0)"
proof -
  define st where "st = foldl (\<lambda>(tot, topb, topc) (b, n).
       (tot + n, if n > topc then Some b else topb, if n > topc then n else topc))
     (0::nat, None::int option, 0::nat) counts"
  obtain t' tb' tc' where st: "st = (t', tb', tc')"
    by (cases st) auto
  then have f: "foldl (\<lambda>(tot, topb, topc) (b, n).
       (tot + n, if n > topc then Some b else topb, if n > topc then n else topc))
     (0, None, 0) counts = (t', tb', tc')"
    by (simp add: st_def)
  from fold_summary [OF f]
  have 1: "t' = sum_list (map snd counts)"
    and 3: "\<forall>b n. (b, n) \<in> set counts \<longrightarrow> n \<le> tc'"
    and 4: "(tb' = None \<and> tc' = 0) \<or> (\<exists>b. tb' = Some b \<and> (b, tc') \<in> set counts)"
    by simp_all
  from assms obtain b n where "(b, n) \<in> set counts" "0 < n"
    by (cases counts) auto
  with 3 have "0 < tc'" by fastforce
  with 4 have 5: "\<exists>b. tb' = Some b \<and> (b, tc') \<in> set counts" by simp
  have s: "summarizeCounts counts =
      \<lparr>total = t', topBcId = tb', topCount = tc', purity = (if t' > 0 then js_div tc' t' else 0)\<rparr>"
    by (simp add: summarizeCounts_def f)
  have fields: "total (summarizeCounts counts) = t'" "topBcId (summarizeCounts counts) = tb'"
      "topCount (summarizeCounts counts) = tc'"
      "purity (summarizeCounts counts) = (if 0 < t' then js_div tc' t' else 0)"
    by (simp_all add: s)
  show ?thesis
    unfolding fields using 1 3 5 by blast
qed

text \<open>The first loop of \<^verbatim>\<open>buildDomainConsensus\<close>: after any prefix of the dataset, the
  counts of a host are the numbers of its known records, license id by license id.\<close>

lemma bucketStep_other:
  assumes "\<not> (license r \<noteq> None \<and> hostnameOf en (url r) = Some h)" and "h \<noteq> []"
  shows "map_of (bucketStep en bucket r) h = map_of bucket h"
proof (cases "license r")
  case None
  then show ?thesis by (simp add: bucketStep_def)
next
  case (Some lic)
  note lic = this
  show ?thesis
  proof (cases "hostnameOf en (url r)")
    case None
    with lic show ?thesis by (simp add: bucketStep_def truthy_def)
  next
    case (Some host)
    show ?thesis
    proof (cases "host = []")
      case True
      with lic Some show ?thesis by (simp add: bucketStep_def truthy_def)
    next
      case False
      from assms(1) lic Some have "h \<noteq> host" by auto
      with lic Some False show ?thesis
        by (simp add: bucketStep_def truthy_def Let_def map_of_map_set)
    qed
  qed
qed

lemma bucketStep_hit:
  assumes "license r = Some lic" and "hostnameOf en (url r) = Some h" and "h \<noteq> []"
  shows "map_of (bucketStep en bucket r) h =
     Some (map_set lic
        ((case map_of (case map_of bucket h of None \<Rightarrow> [] | Some c \<Rightarrow> c) lic of
            None \<Rightarrow> 0 | Some n \<Rightarrow> n) + 1)
        (case map_of bucket h of None \<Rightarrow> [] | Some c \<Rightarrow> c))"
  using assms by (simp add: bucketStep_def truthy_def Let_def map_of_map_set)

lemma bucketStep_inv_hit:
  fixes N :: nat and C :: "int \<Rightarrow> nat"
  assumes h: "h \<noteq> []" and lic: "license r = Some lic" and host: "hostnameOf en (url r) = Some h"
    and inv: "case map_of bucket h of
                None \<Rightarrow> N = 0 \<and> (\<forall>b. C b = 0)
              | Some cs \<Rightarrow> distinct (map fst cs) \<and> sum_list (map snd cs) = N \<and>
                  (\<forall>b. (case map_of cs b of None \<Rightarrow> 0 | Some n \<Rightarrow> n) = C b)"
  shows "\<exists>cs'. map_of (bucketStep en bucket r) h = Some cs' \<and> distinct (map fst cs') \<and>
     sum_list (map snd cs') = N + 1 \<and>
     (\<forall>b. (case map_of cs' b of None \<Rightarrow> 0 | Some n \<Rightarrow> n) = C b + (if lic = b then 1 else 0))"
proof -
  define cs0 where "cs0 = (case map_of bucket h of None \<Rightarrow> [] | Some c \<Rightarrow> c)"
  define old where "old = (case map_of cs0 lic of None \<Rightarrow> 0 | Some n \<Rightarrow> n)"
  define cs' where "cs' = map_set lic (old + 1) cs0"
  have res: "map_of (bucketStep en bucket r) h = Some cs'"
    using bucketStep_hit [OF lic host h, of bucket] by (simp add: cs'_def old_def cs0_def)
  have inv0: "distinct (map fst cs0) \<and> sum_list (map snd cs0) = N \<and>
      (\<forall>b. (case map_of cs0 b of None \<Rightarrow> 0 | Some n \<Rightarrow> n) = C b)"
    using inv by (cases "map_of bucket h") (simp_all add: cs0_def)
  have d: "distinct (map fst cs')"
    using inv0 by (simp add: cs'_def distinct_map_set)
  have "sum_list (map snd cs') + old = sum_list (map snd cs0) + (old + 1)"
    unfolding cs'_def old_def by (rule sum_map_set)
  with inv0 have s: "sum_list (map snd cs') = N + 1" by simp
  have c: "(case map_of cs' b of None \<Rightarrow> 0 | Some n \<Rightarrow> n) = C b + (if lic = b then 1 else 0)" for b
  proof (cases "lic = b")
    case True
    from inv0 have "old = C b" by (simp add: old_def True)
    with True show ?thesis by (simp add: cs'_def map_of_map_set)
  next
    case False
    with inv0 show ?thesis by (simp add: cs'_def map_of_map_set)
  qed
  from res d s c show ?thesis by blast
qed

lemma domainRows_snoc:
  "length (domainRows en (rows @ [r]) h) =
     length (domainRows en rows h) +
       (if license r \<noteq> None \<and> hostnameOf en (url r) = Some h then 1 else 0)"
  by (simp add: domainRows_def)

lemma licenseCount_snoc:
  "licenseCount en (rows @ [r]) h b =
     licenseCount en rows h b + (if license r = Some b \<and> hostnameOf en (url r) = Some h then 1 else 0)"
  by (auto simp: licenseCount_def domainRows_def)

lemma licenseCount_le: "licenseCount en rows h b \<le> length (domainRows en rows h)"
  by (simp add: licenseCount_def)

lemma bucket_invariant:
  assumes h: "h \<noteq> []"
  shows "case map_of (foldl (bucketStep en) [] rows) h of
           None \<Rightarrow> length (domainRows en rows h) = 0 \<and> (\<forall>b. licenseCount en rows h b = 0)
         | Some cs \<Rightarrow> distinct (map fst cs) \<and>
             sum_list (map snd cs) = length (domainRows en rows h) \<and>
             (\<forall>b. (case map_of cs b of None \<Rightarrow> 0 | Some n \<Rightarrow> n) = licenseCount en rows h b)"
proof (induction rows rule: rev_induct)
  case Nil
  show ?case by (simp add: domainRows_def licenseCount_def)
next
  case (snoc r rows)
  let ?bucket = "foldl (bucketStep en) [] rows"
  have f: "foldl (bucketStep en) [] (rows @ [r]) = bucketStep en ?bucket r"
    by simp
  show ?case
  proof (cases "license r \<noteq> None \<and> hostnameOf en (url r) = Some h")
    case False
    then have nb: "\<not> (license r = Some b \<and> hostnameOf en (url r) = Some h)" for b
      by auto
    have n: "length (domainRows en (rows @ [r]) h) = length (domainRows en rows h)"
      using False by (simp only: domainRows_snoc if_False add_0_right)
    have c: "licenseCount en (rows @ [r]) h b = licenseCount en rows h b" for b
      using nb [of b] by (simp only: licenseCount_snoc if_False add_0_right)
    from bucketStep_other [OF False h]
    have "map_of (bucketStep en ?bucket r) h = map_of ?bucket h" .
    with snoc.IH show ?thesis
      unfolding f n c by simp
  next
    case True
    then obtain lic where lic: "license r = Some lic" and host: "hostnameOf en (url r) = Some h"
      by auto
    have n: "length (domainRows en (rows @ [r]) h) = length (domainRows en rows h) + 1"
      using lic host by (simp add: domainRows_snoc)
    have c: "licenseCount en (rows @ [r]) h b =
        licenseCount en rows h b + (if lic = b then 1 else 0)" for b
      using lic host by (simp add: licenseCount_snoc)
    from bucketStep_inv_hit [OF h lic host snoc.IH]
    obtain cs' where "map_of (bucketStep en ?bucket r) h = Some cs'" "distinct (map fst cs')"
      "sum_list (map snd cs') = length (domainRows en rows h) + 1"
      "\<forall>b. (case map_of cs' b of None \<Rightarrow> 0 | Some n \<Rightarrow> n) =
          licenseCount en rows h b + (if lic = b then 1 else 0)"
      by blast
    then show ?thesis
      unfolding f n c by simp
  qed
qed

text \<open>The entry of a host with at least one known record: \<^verbatim>\<open>total\<close> is the number of its
  known records, \<^verbatim>\<open>topBcId\<close> a license id that no other id of the host outnumbers,
  \<^verbatim>\<open>topCount\<close> the number of known records with that id, and \<^verbatim>\<open>purity\<close> the double
  \<^verbatim>\<open>topCount / total\<close>. A host with no known record has no entry, and the step returns
  nothing for its records.\<close>

lemma consensus_entry:
  assumes host: "host \<noteq> []" and known: "domainRows en urls host \<noteq> []"
  shows "\<exists>c top. map_of (buildDomainConsensus en urls) host = Some c \<and>
     total c = length (domainRows en urls host) \<and>
     topBcId c = Some top \<and>
     topCount c = licenseCount en urls host top \<and>
     (\<forall>b. licenseCount en urls host b \<le> topCount c) \<and>
     purity c = js_div (topCount c) (total c)"
proof -
  let ?bucket = "foldl (bucketStep en) [] urls"
  from known have pos: "0 < length (domainRows en urls host)" by simp
  from bucket_invariant [OF host, of en urls] pos
  obtain cs where cs: "map_of ?bucket host = Some cs" and d: "distinct (map fst cs)"
    and s: "sum_list (map snd cs) = length (domainRows en urls host)"
    and c: "\<forall>b. (case map_of cs b of None \<Rightarrow> 0 | Some n \<Rightarrow> n) = licenseCount en urls host b"
    by (cases "map_of ?bucket host") auto
  from cs have "(host, cs) \<in> set ?bucket" by (rule map_of_SomeD)
  moreover have "\<forall>h cs. (h, cs) \<in> set ?bucket \<longrightarrow>
                 h \<noteq> [] \<and> cs \<noteq> [] \<and> (\<forall>b n. (b, n) \<in> set cs \<longrightarrow> 0 < n)"
    by (rule foldl_bucketStep_ok) simp
  ultimately have ne: "cs \<noteq> []" and p: "\<forall>b n. (b, n) \<in> set cs \<longrightarrow> 0 < n"
    by blast+
  let ?c = "summarizeCounts cs"
  from summarizeCounts_fields [OF ne p]
  obtain top where t: "total ?c = sum_list (map snd cs)" and tb: "topBcId ?c = Some top"
    and tin: "(top, topCount ?c) \<in> set cs"
    and mx: "\<forall>b n. (b, n) \<in> set cs \<longrightarrow> n \<le> topCount ?c"
    and pu: "purity ?c = (if 0 < total ?c then js_div (topCount ?c) (total ?c) else 0)"
    by blast
  have entry: "map_of (buildDomainConsensus en urls) host = Some ?c"
    by (simp add: buildDomainConsensus_def map_of_map cs)
  from d tin have "map_of cs top = Some (topCount ?c)" by simp
  with c have tc: "topCount ?c = licenseCount en urls host top"
    by (metis option.simps(5))
  have le: "licenseCount en urls host b \<le> topCount ?c" for b
  proof (cases "map_of cs b")
    case None
    with c have "licenseCount en urls host b = 0" by (metis option.simps(4))
    then show ?thesis by simp
  next
    case (Some n)
    then have "(b, n) \<in> set cs" by (rule map_of_SomeD)
    with mx have "n \<le> topCount ?c" by blast
    moreover from c Some have "licenseCount en urls host b = n" by (metis option.simps(5))
    ultimately show ?thesis by simp
  qed
  from t s pos pu have "total ?c = length (domainRows en urls host)"
      "purity ?c = js_div (topCount ?c) (total ?c)"
    by simp_all
  with entry tb tc le show ?thesis by blast
qed

lemma consensus_no_entry:
  assumes host: "host \<noteq> []" and none: "domainRows en urls host = []"
  shows "map_of (buildDomainConsensus en urls) host = None"
proof (cases "map_of (foldl (bucketStep en) [] urls) host")
  case None
  then show ?thesis
    by (simp add: buildDomainConsensus_def map_of_map)
next
  case (Some cs)
  with bucket_invariant [OF host, of en urls] none
  have s: "sum_list (map snd cs) = 0" by simp
  from Some have "(host, cs) \<in> set (foldl (bucketStep en) [] urls)" by (rule map_of_SomeD)
  moreover have "\<forall>h cs. (h, cs) \<in> set (foldl (bucketStep en) [] urls) \<longrightarrow>
                 h \<noteq> [] \<and> cs \<noteq> [] \<and> (\<forall>b n. (b, n) \<in> set cs \<longrightarrow> 0 < n)"
    by (rule foldl_bucketStep_ok) simp
  ultimately have "cs \<noteq> []" and p: "\<forall>b n. (b, n) \<in> set cs \<longrightarrow> 0 < n"
    by blast+
  then obtain b n where "(b, n) \<in> set cs" "0 < n"
    by (cases cs) auto
  then have "n \<in> set (map snd cs)" by force
  then have "n \<le> sum_list (map snd cs)" by (simp add: member_le_sum_list)
  with s \<open>0 < n\<close> have False by linarith
  then show ?thesis ..
qed

lemma consensus_none_without_samples:
  assumes "domainConsensus cx = buildDomainConsensus en urls"
      and "hostnameOf en (url r) = Some host"
      and "domainRows en urls host = []"
  shows "consensusStep en cx r live = None"
proof (cases "host = []")
  case True
  with assms(2) show ?thesis by (simp add: consensusStep_def truthy_def)
next
  case False
  from consensus_no_entry [OF False assms(3)] assms(1,2) show ?thesis
    by (simp add: consensusStep_def truthy_def)
qed

text \<open>A domain whose known records all carry one license id has purity exactly 1.\<close>

lemma js_div_self: "0 < a \<Longrightarrow> js_div a a = 1"
proof -
  assume a: "0 < a"
  have e: "expDown a a 0 = 0"
    using a by (subst expDown.simps) simp
  show ?thesis
    using a by (simp add: js_div_def e round_half_even_def)
qed

text \<open>The tables of the example datasets. The double nearest to \<open>23 / 25\<close> is
  \<open>8286623314361713 / 2 ^ 53\<close>; the double nearest to \<open>9 / 10\<close> is
  \<open>8106479329266893 / 2 ^ 53\<close>, which is the Number \<^verbatim>\<open>0.9\<close> and is greater than the exact
  quotient.\<close>

lemma uniform_counts:
  "length (domainRows consensus_env uniform_rows ''artist.bandcamp.com'') = 15 \<and>
   (\<forall>b \<in> set [3, 4, 5]. licenseCount consensus_env uniform_rows ''artist.bandcamp.com'' b = (if b = 3 then 15 else 0)) \<and>
   js_div 15 15 = 1 \<and>
   map_of (buildDomainConsensus consensus_env uniform_rows) ''artist.bandcamp.com'' =
     Some \<lparr>total = 15, topBcId = Some 3, topCount = 15, purity = 1\<rparr>"
  by code_simp

lemma mixed_counts:
  "length (domainRows consensus_env mixed_rows ''artist.bandcamp.com'') = 25 \<and>
   licenseCount consensus_env mixed_rows ''artist.bandcamp.com'' 3 = 23 \<and>
   licenseCount consensus_env mixed_rows ''artist.bandcamp.com'' 5 = 2 \<and>
   js_div 23 25 = 8286623314361713 / 9007199254740992 \<and>
   map_of (buildDomainConsensus consensus_env mixed_rows) ''artist.bandcamp.com'' =
     Some \<lparr>total = 25, topBcId = Some 3, topCount = 23,
           purity = 8286623314361713 / 9007199254740992\<rparr>"
  by code_simp

lemma nine_of_ten_counts:
  "length (domainRows consensus_env nine_of_ten_rows ''artist.bandcamp.com'') = 10 \<and>
   licenseCount consensus_env nine_of_ten_rows ''artist.bandcamp.com'' 3 = 9 \<and>
   js_div 9 10 = 8106479329266893 / 9007199254740992 \<and>
   (9 / 10 :: rat) < 8106479329266893 / 9007199254740992 \<and>
   map_of (buildDomainConsensus consensus_env nine_of_ten_rows) ''artist.bandcamp.com'' =
     Some \<lparr>total = 10, topBcId = Some 3, topCount = 9,
           purity = 8106479329266893 / 9007199254740992\<rparr>"
  by code_simp

text \<open>
  C6. Let the consensus table be the one \<^verbatim>\<open>buildDomainConsensus\<close> builds from the dataset
  \<open>urls\<close>, and let \<open>r\<close> be a record whose host has at least one known sample, that is, a
  record of \<open>urls\<close> with that host and a resolved license. Then the table has an entry for
  the host, in which \<^verbatim>\<open>total\<close> is the number of known samples of the host, \<^verbatim>\<open>topBcId\<close> is
  a license id \<open>top\<close> of the host that no other license id outnumbers, \<^verbatim>\<open>topCount\<close> is the
  number of known samples with license \<open>top\<close>, and \<^verbatim>\<open>purity\<close> is the double
  \<^verbatim>\<open>topCount / total\<close>. The enabled domain-consensus step returns an outcome for \<open>r\<close> if
  and only if the number of known samples is at least \<^verbatim>\<open>domainMinKnown\<close> and that double
  is at least \<^verbatim>\<open>domainMinPurity\<close>; every outcome it returns maps the record to \<open>top\<close> with
  provenance \<^verbatim>\<open>domain_consensus\<close>.
\<close>

theorem consensus_gate:
  assumes "useDomainConsensus (c_options cx)"
      and "domainConsensus cx = buildDomainConsensus en urls"
      and "hostnameOf en (url r) = Some host" and "host \<noteq> []"
      and "domainRows en urls host \<noteq> []"
  shows "\<exists>c top. map_of (domainConsensus cx) host = Some c \<and>
     total c = length (domainRows en urls host) \<and>
     topBcId c = Some top \<and>
     topCount c = licenseCount en urls host top \<and>
     (\<forall>b. licenseCount en urls host b \<le> topCount c) \<and>
     purity c = js_div (topCount c) (total c) \<and>
     (consensusStep en cx r live \<noteq> None \<longleftrightarrow>
        domainMinKnown (c_options cx) \<le> length (domainRows en urls host) \<and>
        domainMinPurity (c_options cx) \<le>
          js_div (licenseCount en urls host top) (length (domainRows en urls host))) \<and>
     (\<forall>out. consensusStep en cx r live = Some out \<longrightarrow>
        o_mapped out = Some \<lparr>m_bc_id = Some top, m_name = licenseById cx top,
                               m_source = ''domain_consensus''\<rparr>)"
proof -
  from consensus_entry [OF assms(4,5)]
  obtain c top where e: "map_of (buildDomainConsensus en urls) host = Some c"
    and t: "total c = length (domainRows en urls host)"
    and tb: "topBcId c = Some top"
    and tc: "topCount c = licenseCount en urls host top"
    and le: "\<forall>b. licenseCount en urls host b \<le> topCount c"
    and pu: "purity c = js_div (topCount c) (total c)"
    by blast
  from e assms(2) have e': "map_of (domainConsensus cx) host = Some c" by simp
  have gate: "consensusStep en cx r live \<noteq> None \<longleftrightarrow>
      domainMinKnown (c_options cx) \<le> total c \<and> domainMinPurity (c_options cx) \<le> purity c"
    using assms(1,3,4) e' tb by (auto simp: consensusStep_def truthy_def)
  have out: "\<forall>out. consensusStep en cx r live = Some out \<longrightarrow>
        o_mapped out = Some \<lparr>m_bc_id = Some top, m_name = licenseById cx top,
                               m_source = ''domain_consensus''\<rparr>"
    using assms(1,3,4) e' tb by (auto simp: consensusStep_def truthy_def)
  have gate': "consensusStep en cx r live \<noteq> None \<longleftrightarrow>
        domainMinKnown (c_options cx) \<le> length (domainRows en urls host) \<and>
        domainMinPurity (c_options cx) \<le>
          js_div (licenseCount en urls host top) (length (domainRows en urls host))"
    unfolding gate pu tc t ..
  from e' t tb tc le pu gate' out show ?thesis by blast
qed

text \<open>
  The 15 records of one license are rejected under \<^verbatim>\<open>domainMinKnown = 20\<close> and accepted
  under 10, both at \<^verbatim>\<open>domainMinPurity = 1\<close>. The domain of 25 known records is mapped to
  license 3, the id of 23 of them, and not to license 5, which the table saw first, when
  \<^verbatim>\<open>domainMinPurity\<close> is the Number \<^verbatim>\<open>0.9\<close>; it is rejected when the threshold is the next
  double above its purity. The domain with nine records of ten on license 3 is accepted
  at the threshold \<^verbatim>\<open>0.9\<close>.
\<close>

theorem consensus_gate_witness:
  "consensusStep consensus_env (consensus_ctx uniform_rows 20 1) consensus_row
     (page_ok 200 ''plain'') = None \<and>
   consensusStep consensus_env (consensus_ctx uniform_rows 10 1) consensus_row
     (page_ok 200 ''plain'') \<noteq> None \<and>
   map_option o_mapped
     (consensusStep consensus_env
        (consensus_ctx mixed_rows 20 (8106479329266893 / 9007199254740992)) consensus_row
        (page_ok 200 ''plain'')) =
     Some (Some \<lparr>m_bc_id = Some 3, m_name = None, m_source = ''domain_consensus''\<rparr>) \<and>
   consensusStep consensus_env
     (consensus_ctx mixed_rows 20 (8286623314361714 / 9007199254740992)) consensus_row
     (page_ok 200 ''plain'') = None \<and>
   consensusStep consensus_env
     (consensus_ctx nine_of_ten_rows 10 (8106479329266893 / 9007199254740992)) consensus_row
     (page_ok 200 ''plain'') \<noteq> None"
proof -
  let ?r = "consensus_row"
  let ?l = "page_ok 200 ''plain''"
  let ?h = "''artist.bandcamp.com''"
  have 1: "useDomainConsensus (c_options (consensus_ctx rows k p))" for rows k p
    by (simp add: consensus_ctx_def demo_options_def)
  have 2: "domainConsensus (consensus_ctx rows k p) = buildDomainConsensus consensus_env rows"
    for rows k p
    by (simp add: consensus_ctx_def)
  have 3: "hostnameOf consensus_env (url ?r) = Some ?h"
    by (simp add: consensus_env_def consensus_row_def demo_row_def)
  have 4: "?h \<noteq> []" by simp
  have 5: "domainRows consensus_env uniform_rows ?h \<noteq> []"
      "domainRows consensus_env mixed_rows ?h \<noteq> []"
      "domainRows consensus_env nine_of_ten_rows ?h \<noteq> []"
    using uniform_counts mixed_counts nine_of_ten_counts by auto
  have o: "domainMinKnown (c_options (consensus_ctx rows k p)) = k"
      "domainMinPurity (c_options (consensus_ctx rows k p)) = p"
      "licenseById (consensus_ctx rows k p) b = None" for rows k p b
    by (simp_all add: consensus_ctx_def demo_options_def)
  have u: "consensusStep consensus_env (consensus_ctx uniform_rows k 1) ?r ?l \<noteq> None \<longleftrightarrow>
      k \<le> 15" for k
  proof -
    from consensus_gate [OF 1 2 3 4 5(1), of k 1 ?l]
    obtain c top where "map_of (domainConsensus (consensus_ctx uniform_rows k 1)) ?h = Some c"
      "topBcId c = Some top"
      "consensusStep consensus_env (consensus_ctx uniform_rows k 1) ?r ?l \<noteq> None \<longleftrightarrow>
        k \<le> length (domainRows consensus_env uniform_rows ?h) \<and>
        1 \<le> js_div (licenseCount consensus_env uniform_rows ?h top)
               (length (domainRows consensus_env uniform_rows ?h))"
      unfolding o by blast
    moreover from this(1,2) have "top = 3"
      using uniform_counts by (auto simp: 2)
    ultimately show ?thesis
      using uniform_counts by simp
  qed
  have m: "(consensusStep consensus_env (consensus_ctx mixed_rows 20 p) ?r ?l \<noteq> None \<longleftrightarrow>
      p \<le> 8286623314361713 / 9007199254740992) \<and>
     (\<forall>out. consensusStep consensus_env (consensus_ctx mixed_rows 20 p) ?r ?l = Some out \<longrightarrow>
        o_mapped out =
          Some \<lparr>m_bc_id = Some 3, m_name = None, m_source = ''domain_consensus''\<rparr>)" for p
  proof -
    from consensus_gate [OF 1 2 3 4 5(2), of 20 p ?l]
    obtain c top where "map_of (domainConsensus (consensus_ctx mixed_rows 20 p)) ?h = Some c"
      "topBcId c = Some top"
      "consensusStep consensus_env (consensus_ctx mixed_rows 20 p) ?r ?l \<noteq> None \<longleftrightarrow>
        20 \<le> length (domainRows consensus_env mixed_rows ?h) \<and>
        p \<le> js_div (licenseCount consensus_env mixed_rows ?h top)
               (length (domainRows consensus_env mixed_rows ?h))"
      "\<forall>out. consensusStep consensus_env (consensus_ctx mixed_rows 20 p) ?r ?l = Some out \<longrightarrow>
        o_mapped out =
          Some \<lparr>m_bc_id = Some top, m_name = None, m_source = ''domain_consensus''\<rparr>"
      unfolding o by blast
    moreover from this(1,2) have "top = 3"
      using mixed_counts by (auto simp: 2)
    ultimately show ?thesis
      using mixed_counts by simp
  qed
  have n: "consensusStep consensus_env (consensus_ctx nine_of_ten_rows 10 p) ?r ?l \<noteq> None \<longleftrightarrow>
      p \<le> 8106479329266893 / 9007199254740992" for p
  proof -
    from consensus_gate [OF 1 2 3 4 5(3), of 10 p ?l]
    obtain c top where
      "map_of (domainConsensus (consensus_ctx nine_of_ten_rows 10 p)) ?h = Some c"
      "topBcId c = Some top"
      "consensusStep consensus_env (consensus_ctx nine_of_ten_rows 10 p) ?r ?l \<noteq> None \<longleftrightarrow>
        10 \<le> length (domainRows consensus_env nine_of_ten_rows ?h) \<and>
        p \<le> js_div (licenseCount consensus_env nine_of_ten_rows ?h top)
               (length (domainRows consensus_env nine_of_ten_rows ?h))"
      unfolding o by blast
    moreover from this(1,2) have "top = 3"
      using nine_of_ten_counts by (auto simp: 2)
    ultimately show ?thesis
      using nine_of_ten_counts by simp
  qed
  from m [of "8106479329266893 / 9007199254740992"]
  obtain out where
    "consensusStep consensus_env
       (consensus_ctx mixed_rows 20 (8106479329266893 / 9007199254740992)) ?r ?l = Some out"
    "o_mapped out = Some \<lparr>m_bc_id = Some 3, m_name = None, m_source = ''domain_consensus''\<rparr>"
    by auto
  then have mm: "map_option o_mapped
     (consensusStep consensus_env
        (consensus_ctx mixed_rows 20 (8106479329266893 / 9007199254740992)) ?r ?l) =
     Some (Some \<lparr>m_bc_id = Some 3, m_name = None, m_source = ''domain_consensus''\<rparr>)"
    by simp
  from u [of 20] u [of 10] mm m [of "8286623314361714 / 9007199254740992"]
    n [of "8106479329266893 / 9007199254740992"]
  show ?thesis by simp
qed

section \<open>Alias fallback: ambiguity is rejected\<close>

lemma foldl_set_add_filter:
  assumes "distinct links" and "set acc \<inter> set links = {}"
  shows "foldl (\<lambda>cs link. if P link then set_add link cs else cs) acc links = acc @ filter P links"
  using assms
proof (induction links arbitrary: acc)
  case Nil
  then show ?case by simp
next
  case (Cons l links)
  show ?case
  proof (cases "P l")
    case True
    from Cons.prems have "set (acc @ [l]) \<inter> set links = {}" by auto
    with Cons.prems have "foldl (\<lambda>cs link. if P link then set_add link cs else cs) (acc @ [l]) links =
       (acc @ [l]) @ filter P links"
      by (intro Cons.IH) auto
    with True Cons.prems show ?thesis
      by (simp add: set_add_def)
  next
    case False
    from Cons.prems have "foldl (\<lambda>cs link. if P link then set_add link cs else cs) acc links =
       acc @ filter P links"
      by (intro Cons.IH) auto
    with False show ?thesis by simp
  qed
qed

lemma distinct_extractBandcampAlbumLinks: "distinct (extractBandcampAlbumLinks en t)"
  by (simp add: extractBandcampAlbumLinks_def distinct_new_Set)

lemma aliasSearch_Cons:
  "aliasSearch en slug (q # qs) [] =
     (if slugLinks en slug q = [] then aliasSearch en slug qs []
      else if length (slugLinks en slug q) > 1 then None
      else Some (slugLinks en slug q))"
proof (cases "f_text (fetchWithRetries en (searchUrl en q))")
  case None
  then show ?thesis by (simp add: slugLinks_def)
next
  case (Some t)
  show ?thesis
  proof (cases "\<not> f_ok (fetchWithRetries en (searchUrl en q)) \<or> t = []")
    case True
    with Some have "slugLinks en slug q = []"
      by (auto simp: slugLinks_def)
    moreover from True Some have "aliasSearch en slug (q # qs) [] = aliasSearch en slug qs []"
      by auto
    ultimately show ?thesis by simp
  next
    case False
    have sl: "slugLinks en slug q =
        filter (\<lambda>link. slugOfAlbumUrl en link = Some slug) (extractBandcampAlbumLinks en t)"
      using Some False by (simp add: slugLinks_def)
    have c: "foldl (\<lambda>cs link. if slugOfAlbumUrl en link = Some slug then set_add link cs else cs)
          [] (extractBandcampAlbumLinks en t) = slugLinks en slug q"
      unfolding sl
      using foldl_set_add_filter [OF distinct_extractBandcampAlbumLinks, of "[]" en t
          "\<lambda>link. slugOfAlbumUrl en link = Some slug"]
      by simp
    have unf: "aliasSearch en slug (q # qs) [] =
        (if length (slugLinks en slug q) > 1 then None
         else if length (slugLinks en slug q) = 1 then Some (slugLinks en slug q)
         else aliasSearch en slug qs (slugLinks en slug q))"
      using Some False by (simp add: c Let_def)
    show ?thesis
    proof (cases "slugLinks en slug q")
      case Nil
      then show ?thesis unfolding unf by simp
    next
      case (Cons x xs)
      then show ?thesis unfolding unf by (cases xs) simp_all
    qed
  qed
qed

lemma aliasSearch_none_found:
  "\<forall>q \<in> set qs. slugLinks en slug q = [] \<Longrightarrow> aliasSearch en slug qs [] = Some []"
proof (induction qs)
  case Nil
  show ?case by simp
next
  case (Cons q qs)
  then have "slugLinks en slug q = []" and "aliasSearch en slug qs [] = Some []"
    by simp_all
  then show ?case
    by (subst aliasSearch_Cons) simp
qed

lemma aliasSearch_ambiguous:
  assumes "\<forall>p \<in> set pre. slugLinks en slug p = []" and "2 \<le> length (slugLinks en slug q)"
  shows "aliasSearch en slug (pre @ q # post) [] = None"
  using assms(1)
proof (induction pre)
  case Nil
  from assms(2) have "slugLinks en slug q \<noteq> []" and "1 < length (slugLinks en slug q)"
    by auto
  then have "aliasSearch en slug (q # post) [] = None"
    by (subst aliasSearch_Cons) simp
  then show ?case by simp
next
  case (Cons p pre)
  then have "slugLinks en slug p = []" and "aliasSearch en slug (pre @ q # post) [] = None"
    by simp_all
  then have "aliasSearch en slug (p # (pre @ q # post)) [] = None"
    by (subst aliasSearch_Cons) simp
  then show ?case by simp
qed

lemma alias_loop_rejects:
  assumes "(\<forall>q \<in> set qs. slugLinks en slug q = []) \<or>
       (\<exists>pre q post. qs = pre @ q # post \<and> (\<forall>p \<in> set pre. slugLinks en slug p = []) \<and>
          2 \<le> length (slugLinks en slug q))"
  shows "aliasSearch en slug qs [] = None \<or> aliasSearch en slug qs [] = Some []"
  using assms
proof
  assume "\<forall>q \<in> set qs. slugLinks en slug q = []"
  then show ?thesis by (simp add: aliasSearch_none_found del: aliasSearch.simps)
next
  assume "\<exists>pre q post. qs = pre @ q # post \<and> (\<forall>p \<in> set pre. slugLinks en slug p = []) \<and>
          2 \<le> length (slugLinks en slug q)"
  then obtain pre q post where "qs = pre @ q # post" "\<forall>p \<in> set pre. slugLinks en slug p = []"
      "2 \<le> length (slugLinks en slug q)"
    by blast
  then show ?thesis
    using aliasSearch_ambiguous [of pre en slug q post] by simp
qed

lemma o_alias_url_inspectRow:
  assumes "aliasStep en cx r (fetchWithRetries en (url r)) = None"
  shows "o_alias_url (inspectRow en cx r) = None"
proof -
  let ?live = "fetchWithRetries en (url r)"
  have 1: "liveStep en cx r ?live = Some out \<Longrightarrow> o_alias_url out = None" for out
    by (auto simp: liveStep_def split: option.splits)
  have 2: "archiveStep en cx r ?live = Some out \<Longrightarrow> o_alias_url out = None" for out
    by (auto simp: archiveStep_def Let_def split: option.splits if_splits)
  have 3: "consensusStep en cx r ?live = Some out \<Longrightarrow> o_alias_url out = None" for out
    by (auto simp: consensusStep_def split: option.splits if_splits)
  have 4: "o_alias_url (unresolvedOutcome r ?live) = None"
    by (simp add: unresolvedOutcome_def)
  show ?thesis
    using assms 1 2 3 4
    by (simp add: inspectRow_def Let_def split: option.splits)
qed

lemma url_mergeRow_no_alias:
  "o_alias_url m = None \<Longrightarrow> url (mergeRow ts m r) = url r"
  by (cases "o_mapped m"; cases "m_bc_id (the (o_mapped m))") (simp_all add: mergeRow_def Let_def)

text \<open>
  C7. The queries of the alias search are issued in order until one returns a link with
  the record's item slug. If every query returns no such link, or the first query that
  returns any returns two or more distinct ones, \<^verbatim>\<open>findBandcampAliasAlbumUrl\<close> returns
  \<^verbatim>\<open>null\<close>: the outcome of the record carries no alias URL and the merge leaves the
  record's URL as it was.
\<close>

theorem alias_ambiguity_rejected:
  assumes "hostnameOf en (url r) = Some host" and "slugOfAlbumUrl en (url r) = Some slug"
      and "(\<forall>q \<in> set (aliasQueries host slug). slugLinks en slug q = []) \<or>
           (\<exists>pre q post. aliasQueries host slug = pre @ q # post \<and>
              (\<forall>p \<in> set pre. slugLinks en slug p = []) \<and> 2 \<le> length (slugLinks en slug q))"
  shows "findBandcampAliasAlbumUrl en (url r) = None \<and>
         o_alias_url (inspectRow en cx r) = None \<and>
         url (mergeRow ts (inspectRow en cx r) r) = url r"
proof -
  from alias_loop_rejects [OF assms(3)]
  have f: "findBandcampAliasAlbumUrl en (url r) = None"
    using assms(1,2) by (auto simp: findBandcampAliasAlbumUrl_def)
  then have "aliasStep en cx r (fetchWithRetries en (url r)) = None"
    by (simp add: aliasStep_def)
  then have a: "o_alias_url (inspectRow en cx r) = None"
    by (rule o_alias_url_inspectRow)
  from f a url_mergeRow_no_alias [OF a] show ?thesis by simp
qed

lemma night_songs_queries: "aliasQueries ''artist.bandcamp.com'' ''night-songs'' =
    [''artist night-songs'', ''artist night songs'']"
  by code_simp

lemma night_songs_links: "slugLinks alias_env ''night-songs'' ''artist night-songs'' =
    [''https://artist2.bandcamp.com/album/night-songs'',
     ''https://other.bandcamp.com/album/night-songs'']"
  by code_simp

theorem alias_ambiguity_rejected_witness:
  "findBandcampAliasAlbumUrl alias_env (url (demo_row 7 ''https://artist.bandcamp.com/album/night-songs'')) = None \<and>
   o_alias_url (inspectRow alias_env demo_ctx (demo_row 7 ''https://artist.bandcamp.com/album/night-songs'')) = None \<and>
   url (mergeRow ''2024-05-01T00:00:00.000Z''
          (inspectRow alias_env demo_ctx (demo_row 7 ''https://artist.bandcamp.com/album/night-songs''))
          (demo_row 7 ''https://artist.bandcamp.com/album/night-songs'')) =
     ''https://artist.bandcamp.com/album/night-songs''"
proof -
  let ?r = "demo_row 7 ''https://artist.bandcamp.com/album/night-songs''"
  have 1: "hostnameOf alias_env (url ?r) = Some ''artist.bandcamp.com''"
    by (simp add: alias_env_def)
  have 2: "slugOfAlbumUrl alias_env (url ?r) = Some ''night-songs''"
    by (simp add: alias_env_def demo_row_def)
  have "aliasQueries ''artist.bandcamp.com'' ''night-songs'' =
      [] @ ''artist night-songs'' # [''artist night songs''] \<and>
      (\<forall>p \<in> set []. slugLinks alias_env ''night-songs'' p = []) \<and>
      2 \<le> length (slugLinks alias_env ''night-songs'' ''artist night-songs'')"
    by (simp add: night_songs_queries night_songs_links)
  then have 3: "(\<forall>q \<in> set (aliasQueries ''artist.bandcamp.com'' ''night-songs'').
         slugLinks alias_env ''night-songs'' q = []) \<or>
       (\<exists>pre q post. aliasQueries ''artist.bandcamp.com'' ''night-songs'' = pre @ q # post \<and>
          (\<forall>p \<in> set pre. slugLinks alias_env ''night-songs'' p = []) \<and>
          2 \<le> length (slugLinks alias_env ''night-songs'' q))"
    by blast
  from alias_ambiguity_rejected [OF 1 2 3, of demo_ctx "''2024-05-01T00:00:00.000Z''"]
  show ?thesis by (simp add: demo_row_def)
qed

section \<open>Replaying the reports\<close>

lemma reconcileRow_eq: "reconcileRow ts m r = mergeRow ts m r"
  by (cases "o_mapped m"; cases "o_alias_url m"; cases "m_bc_id (the (o_mapped m))")
     (auto simp: reconcileRow_def mergeRow_def Let_def)

lemma rowsById_Some:
  assumes "distinct (map url_id urls)"
  shows "rowsById urls k = Some i \<longleftrightarrow> i < length urls \<and> url_id (urls ! i) = k"
proof -
  let ?z = "zip (map url_id urls) [0..<length urls]"
  have d: "distinct (map fst ?z)" using assms by simp
  have "map_of (rev ?z) = map_of ?z"
    using d by (intro map_of_inject_set [THEN iffD2]) (auto simp: rev_map [symmetric])
  then have "rowsById urls k = Some i \<longleftrightarrow> (k, i) \<in> set ?z"
    using d by (simp add: rowsById_def)
  also have "\<dots> \<longleftrightarrow> i < length urls \<and> url_id (urls ! i) = k"
  proof
    assume "(k, i) \<in> set ?z"
    then show "i < length urls \<and> url_id (urls ! i) = k"
      by (auto simp: set_zip)
  next
    assume a: "i < length urls \<and> url_id (urls ! i) = k"
    then have "?z ! i = (k, i)" by simp
    moreover from a have "i < length ?z" by simp
    ultimately show "(k, i) \<in> set ?z" by (metis nth_mem)
  qed
  finally show ?thesis .
qed

lemma rowsById_None:
  assumes "distinct (map url_id urls)"
  shows "rowsById urls k = None \<longleftrightarrow> k \<notin> url_id ` set urls"
proof -
  have "rowsById urls k = None \<longleftrightarrow> (\<forall>i. rowsById urls k \<noteq> Some i)" by auto
  also have "\<dots> \<longleftrightarrow> (\<forall>i. \<not> (i < length urls \<and> url_id (urls ! i) = k))"
    unfolding rowsById_Some [OF assms] ..
  also have "\<dots> \<longleftrightarrow> k \<notin> url_id ` set urls"
    by (force simp: in_set_conv_nth image_iff)
  finally show ?thesis .
qed


lemma reconcileResult_as_map:
  assumes d: "distinct (map url_id urls)" and same: "map url_id us = map url_id urls"
  shows "reconcileResult (rowsById urls) ts us m =
     map (\<lambda>r. if url_id r = o_url_id m then mergeRow ts m r else r) us"
proof (cases "rowsById urls (o_url_id m)")
  case None
  then have "o_url_id m \<notin> url_id ` set urls"
    by (simp add: rowsById_None [OF d])
  then have "o_url_id m \<notin> set (map url_id us)"
    by (simp add: same)
  then have "\<And>x. x \<in> set us \<Longrightarrow> url_id x \<noteq> o_url_id m"
    by force
  then have "map (\<lambda>r. if url_id r = o_url_id m then mergeRow ts m r else r) us = us"
    by (intro map_idI) simp
  with None show ?thesis
    by (simp add: reconcileResult_def)
next
  case (Some i)
  then have i: "i < length urls" and k: "url_id (urls ! i) = o_url_id m"
    by (simp_all add: rowsById_Some [OF d])
  from same have len: "length us = length urls"
    by (metis length_map)
  have ids: "url_id (us ! j) = url_id (urls ! j)" if "j < length urls" for j
    using same that len by (metis nth_map)
  have "us[i := mergeRow ts m (us ! i)] =
      map (\<lambda>r. if url_id r = o_url_id m then mergeRow ts m r else r) us"
  proof (rule nth_equalityI)
    show "length (us[i := mergeRow ts m (us ! i)]) =
        length (map (\<lambda>r. if url_id r = o_url_id m then mergeRow ts m r else r) us)"
      by simp
  next
    fix j assume "j < length (us[i := mergeRow ts m (us ! i)])"
    then have j: "j < length urls" by (simp add: len)
    show "us[i := mergeRow ts m (us ! i)] ! j =
        map (\<lambda>r. if url_id r = o_url_id m then mergeRow ts m r else r) us ! j"
    proof (cases "j = i")
      case True
      with i k ids [OF i] show ?thesis by (simp add: len)
    next
      case False
      with d i j have "url_id (urls ! j) \<noteq> url_id (urls ! i)"
        by (metis distinct_conv_nth length_map nth_map)
      with False j k ids [OF j] show ?thesis by (simp add: len)
    qed
  qed
  with Some i show ?thesis
    by (simp add: reconcileResult_def reconcileRow_eq len)
qed


lemma foldl_reconcileResult:
  assumes d: "distinct (map url_id urls)" and same: "map url_id us = map url_id urls"
  shows "foldl (reconcileResult (rowsById urls) ts) us ms =
     map (\<lambda>r. foldl (\<lambda>r m. if url_id r = o_url_id m then mergeRow ts m r else r) r ms) us"
  using same
proof (induction ms arbitrary: us)
  case Nil
  then show ?case by simp
next
  case (Cons m ms)
  let ?us' = "map (\<lambda>r. if url_id r = o_url_id m then mergeRow ts m r else r) us"
  have step: "reconcileResult (rowsById urls) ts us m = ?us'"
    by (rule reconcileResult_as_map [OF d Cons.prems])
  have "map url_id ?us' = map url_id us"
    by (simp add: o_def)
  with Cons.prems have "map url_id ?us' = map url_id urls" by simp
  from Cons.IH [OF this] show ?case
    by (simp add: step o_def)
qed

lemma url_id_foldl_step:
  "url_id (foldl (\<lambda>r m. if url_id r = o_url_id m then mergeRow ts m r else r) r ms) = url_id r"
  by (induction ms arbitrary: r) simp_all

lemma foldl_step_untouched:
  "url_id r \<notin> o_url_id ` set ms \<Longrightarrow>
   foldl (\<lambda>r m. if url_id r = o_url_id m then mergeRow ts m r else r) r ms = r"
  by (induction ms arbitrary: r) simp_all

lemma resultById_snoc:
  "resultById (ms @ [m]) k = (if k = o_url_id m then Some m else resultById ms k)"
  by (simp add: resultById_def)

lemma foldl_step_lookup:
  assumes "distinct (map o_url_id ms)"
  shows "foldl (\<lambda>r m. if url_id r = o_url_id m then mergeRow ts m r else r) r ms =
     (case resultById ms (url_id r) of None \<Rightarrow> r | Some m \<Rightarrow> mergeRow ts m r)"
  using assms
proof (induction ms rule: rev_induct)
  case Nil
  show ?case by (simp add: resultById_def)
next
  case (snoc m ms)
  from snoc.prems have dm: "distinct (map o_url_id ms)" and nm: "o_url_id m \<notin> o_url_id ` set ms"
    by simp_all
  show ?case
  proof (cases "url_id r = o_url_id m")
    case True
    with nm have "foldl (\<lambda>r m. if url_id r = o_url_id m then mergeRow ts m r else r) r ms = r"
      by (intro foldl_step_untouched) simp
    with True show ?thesis
      by (simp add: resultById_snoc)
  next
    case False
    let ?f = "\<lambda>r m. if url_id r = o_url_id m then mergeRow ts m r else r"
    have "url_id (foldl ?f r ms) \<noteq> o_url_id m"
      using False by (simp only: url_id_foldl_step) simp
    then have "foldl ?f r (ms @ [m]) = foldl ?f r ms"
      by simp
    also note snoc.IH [OF dm]
    finally show ?thesis
      using False by (simp add: resultById_snoc)
  qed
qed

lemma reconcileReport_eq_mergeRows:
  assumes "distinct (map url_id urls)" and "map url_id us = map url_id urls"
      and "distinct (map o_url_id (r_results rep))"
  shows "reconcileReport (rowsById urls) us rep = mergeRows (r_generated_at rep) (r_results rep) us"
  by (simp add: reconcileReport_def mergeRows_def foldl_reconcileResult [OF assms(1,2)]
      foldl_step_lookup [OF assms(3)])

lemma inspectRow_cases:
  "(\<exists>out. liveStep en cx r (fetchWithRetries en (url r)) = Some out \<and> inspectRow en cx r = out) \<or>
   (\<exists>out. archiveStep en cx r (fetchWithRetries en (url r)) = Some out \<and> inspectRow en cx r = out) \<or>
   (\<exists>out. aliasStep en cx r (fetchWithRetries en (url r)) = Some out \<and> inspectRow en cx r = out) \<or>
   (\<exists>out. consensusStep en cx r (fetchWithRetries en (url r)) = Some out \<and> inspectRow en cx r = out) \<or>
   inspectRow en cx r = unresolvedOutcome r (fetchWithRetries en (url r))"
proof (cases "liveStep en cx r (fetchWithRetries en (url r))")
  case (Some out)
  then show ?thesis by (simp add: inspectRow_def Let_def)
next
  case None
  note l = this
  show ?thesis
  proof (cases "archiveStep en cx r (fetchWithRetries en (url r))")
    case (Some out)
    with l show ?thesis by (simp add: inspectRow_def Let_def)
  next
    case None
    note a = this
    show ?thesis
    proof (cases "aliasStep en cx r (fetchWithRetries en (url r))")
      case (Some out)
      with l a show ?thesis by (simp add: inspectRow_def Let_def)
    next
      case None
      note s = this
      show ?thesis
      proof (cases "consensusStep en cx r (fetchWithRetries en (url r))")
        case (Some out)
        with l a s show ?thesis by (simp add: inspectRow_def Let_def)
      next
        case None
        with l a s show ?thesis by (simp add: inspectRow_def Let_def)
      qed
    qed
  qed
qed

lemma o_url_id_liveStep: "liveStep en cx r live = Some out \<Longrightarrow> o_url_id out = url_id r"
  by (cases "decidePage en cx live") (auto simp: liveStep_def)

lemma o_url_id_archiveStep: "archiveStep en cx r live = Some out \<Longrightarrow> o_url_id out = url_id r"
  by (cases "findWaybackSnapshotUrl en (url r)";
      cases "decidePage en cx (fetchWithRetries en (the (findWaybackSnapshotUrl en (url r))))")
     (auto simp: archiveStep_def Let_def split: if_splits)

lemma o_url_id_aliasStep: "aliasStep en cx r live = Some out \<Longrightarrow> o_url_id out = url_id r"
  by (cases "findBandcampAliasAlbumUrl en (url r)";
      cases "decidePage en cx (fetchWithRetries en (the (findBandcampAliasAlbumUrl en (url r))))")
     (auto simp: aliasStep_def Let_def split: if_splits)

lemma o_url_id_consensusStep: "consensusStep en cx r live = Some out \<Longrightarrow> o_url_id out = url_id r"
  by (auto simp: consensusStep_def split: option.splits if_splits)

lemma o_url_id_inspectRow: "o_url_id (inspectRow en cx r) = url_id r"
  using inspectRow_cases [of en cx r]
    o_url_id_liveStep o_url_id_archiveStep o_url_id_aliasStep o_url_id_consensusStep
  by (auto simp: unresolvedOutcome_def)

lemma distinct_acceleratedResults:
  assumes "distinct (map url_id urls)"
  shows "distinct (map o_url_id (acceleratedResults en opts (urls, licenses)))"
proof -
  have "map o_url_id (acceleratedResults en opts (urls, licenses)) =
      map url_id (filter (\<lambda>u. license u = None) urls)"
    by (simp add: acceleratedResults_def Let_def o_def o_url_id_inspectRow)
  with assms show ?thesis
    by (simp add: distinct_map_filter)
qed

lemma map_url_id_mergeRows: "map url_id (mergeRows ts rs us) = map url_id us"
proof (rule nth_equalityI)
  show "length (map url_id (mergeRows ts rs us)) = length (map url_id us)"
    by (simp add: mergeRows_def)
next
  fix i assume "i < length (map url_id (mergeRows ts rs us))"
  then have i: "i < length us" by (simp add: mergeRows_def)
  show "map url_id (mergeRows ts rs us) ! i = map url_id us ! i"
    using i by (cases "resultById rs (url_id (us ! i))") (simp_all add: mergeRows_def)
qed

lemma loadReport_written:
  "ts \<noteq> [] \<Longrightarrow> loadReport \<lparr>generated_at = Some ts, results = Some rs\<rparr> =
     \<lparr>r_generated_at = ts, r_results = rs\<rparr>"
  by (simp add: loadReport_def truthy_def)

lemma live_replay:
  assumes d: "distinct (map url_id urls0)"
      and w: "\<forall>p \<in> set passes. opt_write (run_options p) \<and> run_timestamp p \<noteq> []"
      and same: "map url_id us = map url_id urls0"
      and run: "liveRuns passes (us, lic) = (final, reps)"
  shows "foldl (reconcileReport (rowsById urls0)) us (map loadReport reps) = fst final \<and>
         map r_generated_at (map loadReport reps) = map run_timestamp passes"
  using w same run
proof (induction passes arbitrary: us lic final reps)
  case Nil
  then show ?case by auto
next
  case (Cons p ps)
  define ts where "ts = run_timestamp p"
  define rs where "rs = acceleratedResults (run_env p) (run_options p) (us, lic)"
  define files' where "files' = acceleratedMerge ts rs (us, lic)"
  from Cons.prems(1) have wr: "opt_write (run_options p)" and ne: "ts \<noteq> []"
    and w': "\<forall>p \<in> set ps. opt_write (run_options p) \<and> run_timestamp p \<noteq> []"
    by (simp_all add: ts_def)
  have main: "acceleratedMain (run_env p) (run_options p) (run_timestamp p) (us, lic) =
      (files', \<lparr>generated_at = Some ts, results = Some rs\<rparr>)"
    using wr by (simp add: acceleratedMain_def Let_def rs_def files'_def ts_def)
  obtain final' reps' where rest: "liveRuns ps files' = (final', reps')"
    by (cases "liveRuns ps files'") auto
  from Cons.prems(3) main rest
  have fin: "final = final'" and reps: "reps = \<lparr>generated_at = Some ts, results = Some rs\<rparr> # reps'"
    by (simp_all add: Let_def)
  have us': "fst files' = mergeRows ts rs us"
    by (simp add: files'_def acceleratedMerge_def Let_def)
  have same': "map url_id (fst files') = map url_id urls0"
    using Cons.prems(2) by (simp add: us' map_url_id_mergeRows)
  from d Cons.prems(2) have "distinct (map url_id us)" by simp
  then have dr: "distinct (map o_url_id rs)"
    unfolding rs_def by (rule distinct_acceleratedResults)
  have step: "reconcileReport (rowsById urls0) us \<lparr>r_generated_at = ts, r_results = rs\<rparr> = fst files'"
    using reconcileReport_eq_mergeRows [OF d Cons.prems(2), of "\<lparr>r_generated_at = ts, r_results = rs\<rparr>"] dr
    by (simp add: us')
  have rest': "liveRuns ps (fst files', snd files') = (final', reps')"
    using rest by simp
  from Cons.IH [OF w' same' rest']
  have ih: "foldl (reconcileReport (rowsById urls0)) (fst files') (map loadReport reps') = fst final'"
    "map r_generated_at (map loadReport reps') = map run_timestamp ps"
    by simp_all
  have ts: "run_timestamp p = ts" by (simp add: ts_def)
  show ?case
    using ih step by (simp add: reps fin loadReport_written [OF ne] ts)
qed

lemma sorted_reports:
  assumes "mset files = mset reps"
      and "sorted_wrt (<) (map r_generated_at (map loadReport reps))"
  shows "sort_key r_generated_at (map loadReport files) = map loadReport reps"
proof (rule sort_key_inj_key_eq)
  from assms(1) show "mset (map loadReport files) = mset (map loadReport reps)"
    by simp
  from assms(2) have sd: "sorted (map r_generated_at (map loadReport reps))"
      "distinct (map r_generated_at (map loadReport reps))"
    by (simp_all add: strict_sorted_iff)
  from sd(1) show "sorted (map r_generated_at (map loadReport reps))" .
  from assms(1) have "set files = set reps" by (rule mset_eq_setD)
  then have "set (map loadReport files) = set (map loadReport reps)" by simp
  moreover from sd(2) have "inj_on r_generated_at (set (map loadReport reps))"
    unfolding distinct_map [of r_generated_at "map loadReport reps"] by (rule conjunct2)
  ultimately show "inj_on r_generated_at (set (map loadReport files))" by simp
qed

text \<open>
  C4. Let the accelerated fixer run any number of times in write mode, one run after the
  other, on records with unique ids, the runs' timestamps being non-empty and strictly
  increasing (as ISO-8601 timestamps of successive runs are). Then the reconciler, given
  the reports of these runs in any order and the records the first run started from,
  rebuilds exactly the records the last run left: it sorts the reports by timestamp and
  applies the outcomes of each in turn, so a later report's outcome for a record
  overrides an earlier one.
\<close>

theorem replay_equivalence:
  assumes "distinct (map url_id urls)"
      and "\<forall>p \<in> set passes. opt_write (run_options p) \<and> run_timestamp p \<noteq> []"
      and "sorted_wrt (<) (map run_timestamp passes)"
      and "liveRuns passes (urls, licenses) = ((urls', licenses'), reports)"
      and "mset files = mset reports"
  shows "reconcileMain urls files = urls'"
proof -
  from live_replay [OF assms(1,2) refl assms(4)]
  have a: "foldl (reconcileReport (rowsById urls)) urls (map loadReport reports) = urls'"
    and b: "map r_generated_at (map loadReport reports) = map run_timestamp passes"
    by simp_all
  from assms(3) b have "sorted_wrt (<) (map r_generated_at (map loadReport reports))"
    by simp
  from sorted_reports [OF assms(5) this] a show ?thesis
    by (simp add: reconcileMain_def)
qed

lemma history_final_state: "fst (fst (liveRuns history_runs (history_urls, history_licenses))) =
   [\<lparr>url_id = 1, url = ''gone'', title = None, license = Some 4, status = Some ''dead'',
     health_checked_at = Some ''2024-05-01T00:00:00.000Z'', health_reason = Some ''http_404''\<rparr>,
    \<lparr>url_id = 2, url = ''amb'', title = None, license = Some 5, status = Some ''active'',
     health_checked_at = Some ''2024-05-02T00:00:00.000Z'', health_reason = Some ''license_type''\<rparr>]"
  by code_simp

theorem replay_equivalence_witness:
  "reconcileMain history_urls (rev (snd (liveRuns history_runs (history_urls, history_licenses)))) =
   [\<lparr>url_id = 1, url = ''gone'', title = None, license = Some 4, status = Some ''dead'',
     health_checked_at = Some ''2024-05-01T00:00:00.000Z'', health_reason = Some ''http_404''\<rparr>,
    \<lparr>url_id = 2, url = ''amb'', title = None, license = Some 5, status = Some ''active'',
     health_checked_at = Some ''2024-05-02T00:00:00.000Z'', health_reason = Some ''license_type''\<rparr>]"
proof -
  let ?res = "liveRuns history_runs (history_urls, history_licenses)"
  have 1: "distinct (map url_id history_urls)"
    by (simp add: history_urls_def demo_row_def)
  have 2: "\<forall>p \<in> set history_runs. opt_write (run_options p) \<and> run_timestamp p \<noteq> []"
    by (simp add: history_runs_def demo_options_def)
  have 3: "sorted_wrt (<) (map run_timestamp history_runs)"
    by code_simp
  have 4: "?res = ((fst (fst ?res), snd (fst ?res)), snd ?res)"
    by simp
  have 5: "mset (rev (snd ?res)) = mset (snd ?res)"
    by simp
  from replay_equivalence [OF 1 2 3 4 5] history_final_state show ?thesis
    by simp
qed

end
